theory Spec2Isabelle
  imports Main "HOL-Library.Word" "HOL-Library.Monad_Syntax"
begin

unbundle bit_operations_syntax

section \<open>Data model of \<^verbatim>\<open>runtime/tree.c\<close>\<close>

text \<open>
  The C code works on heap-allocated \<^verbatim>\<open>TSTree\<close> structs that are shared between
  parents and mutated only in their \<^verbatim>\<open>ref_count\<close>. The embedding keeps that
  sharing: a heap is the list of the structs allocated so far, a pointer is \<open>NULL\<close> or
  the index of a struct, and \<^verbatim>\<open>malloc\<close> appends. Dereferencing \<open>NULL\<close> or an address
  that was never allocated is undefined behaviour in C; every function that would do
  so returns \<open>None\<close>.

  \<^verbatim>\<open>size_t\<close> is a 64-bit word, so \<open>+\<close> wraps as it does in C.
\<close>

type_synonym size_t = "64 word"
type_synonym TSSymbol = "16 word"
type_synonym TSTreeOptions = "32 word"

datatype ptr = NULL | Ptr nat

text \<open>\<^verbatim>\<open>TSTreeChild\<close>: an entry of the array stored behind a node.\<close>

record TSTreeChild =
  tree :: ptr
  offset :: size_t

text \<open>
  \<^verbatim>\<open>TSTree\<close>. The C fields \<^verbatim>\<open>children\<close> and \<^verbatim>\<open>child_count\<close> (a pointer to an array and
  the number of its elements) are one list; \<open>child_count\<close> is its length. The array
  that \<^verbatim>\<open>ts_tree_visible_children\<close> finds behind the struct is the list
  \<open>visible_children\<close>; the field \<open>visible_child_count\<close> is kept beside it, as in C,
  because the code computes the two in different loops. The field \<^verbatim>\<open>size\<close> is
  called \<open>size'\<close> here.
\<close>

record TSTree =
  symbol :: TSSymbol
  options :: TSTreeOptions
  ref_count :: size_t
  padding :: size_t
  size' :: size_t
  lookahead_char :: char
  children :: "ptr list"
  visible_child_count :: size_t
  visible_children :: "TSTreeChild list"

type_synonym heap = "TSTree list"

abbreviation child_count :: "TSTree \<Rightarrow> nat" where
  "child_count t \<equiv> length (children t)"

fun deref :: "heap \<Rightarrow> ptr \<Rightarrow> TSTree option" where
  "deref h NULL = None"
| "deref h (Ptr a) = (if a < length h then Some (h ! a) else None)"

definition malloc :: "heap \<Rightarrow> TSTree \<Rightarrow> heap \<times> ptr" where
  "malloc h t = (h @ [t], Ptr (length h))"

subsection \<open>Declarations of the headers\<close>

text \<open>
  The file includes \<^verbatim>\<open>runtime/tree.h\<close> and \<^verbatim>\<open>tree_sitter/parser.h\<close>, which are not
  among the sources. The struct types above follow the fields that \<^verbatim>\<open>tree.c\<close> uses;
  the widths of \<open>TSSymbol\<close> and \<open>TSTreeOptions\<close> are those of an \<^verbatim>\<open>unsigned short\<close> and
  of an \<^verbatim>\<open>enum\<close>. The five declarations that \<^verbatim>\<open>tree.c\<close> uses without defining them
  follow the spec.
\<close>

text \<open>
  Modelled from the spec: the option flag \<^verbatim>\<open>TSTreeOptionsHidden\<close> of \<^verbatim>\<open>runtime/tree.h\<close>.
  The spec's attribute \<open>hidden\<close>: the node is grammar-internal and does not appear in
  the visible tree. It is one bit of \<^verbatim>\<open>options\<close>.
\<close>

definition TSTreeOptionsHidden :: TSTreeOptions where
  "TSTreeOptionsHidden = 1"

text \<open>
  Modelled from the spec: the option flag \<^verbatim>\<open>TSTreeOptionsWrapper\<close> of
  \<^verbatim>\<open>runtime/tree.h\<close>. The spec's attribute \<open>wrapper\<close>: the node is hidden and forwards
  to its one visible or wrapper child. It is another bit of \<^verbatim>\<open>options\<close>.
\<close>

definition TSTreeOptionsWrapper :: TSTreeOptions where
  "TSTreeOptionsWrapper = 4"

text \<open>
  Modelled from the spec: the constant \<^verbatim>\<open>ts_builtin_sym_error\<close> of
  \<^verbatim>\<open>tree_sitter/parser.h\<close>. The spec's reserved symbol that means a parse error; it
  is no symbol of the grammar.
\<close>

definition ts_builtin_sym_error :: TSSymbol where
  "ts_builtin_sym_error = 0"

text \<open>
  Modelled from the spec: the predicate \<^verbatim>\<open>ts_tree_is_visible\<close> of \<^verbatim>\<open>runtime/tree.h\<close>.
  The spec's visibility predicate: a node is visible exactly when it is not hidden.
\<close>

definition ts_tree_is_visible :: "TSTree \<Rightarrow> bool" where
  "ts_tree_is_visible t = (options t AND TSTreeOptionsHidden = 0)"

text \<open>
  Modelled from the spec: the predicate \<^verbatim>\<open>ts_tree_is_wrapper\<close> of \<^verbatim>\<open>runtime/tree.h\<close>.
  The spec's wrapper predicate: the wrapper flag is set.
\<close>

definition ts_tree_is_wrapper :: "TSTree \<Rightarrow> bool" where
  "ts_tree_is_wrapper t = (options t AND TSTreeOptionsWrapper \<noteq> 0)"

section \<open>Constructors\<close>

text \<open>
  \<^verbatim>\<open>ts_tree_make_leaf\<close>. The compound literal leaves \<^verbatim>\<open>visible_child_count\<close> out, so
  C sets it to zero; the allocation has no room behind the struct, so the array of
  visible children is empty.
\<close>

definition ts_tree_make_leaf ::
  "heap \<Rightarrow> TSSymbol \<Rightarrow> size_t \<Rightarrow> size_t \<Rightarrow> bool \<Rightarrow> heap \<times> ptr" where
  "ts_tree_make_leaf h symb sz pad is_hidden =
     malloc h \<lparr> symbol = symb,
                options = (if is_hidden then TSTreeOptionsHidden else 0),
                ref_count = 1,
                padding = pad,
                size' = sz,
                lookahead_char = CHR 0x00,
                children = [],
                visible_child_count = 0,
                visible_children = [] \<rparr>"

text \<open>\<^verbatim>\<open>ts_tree_make_error\<close>: a leaf with the error symbol, then the store to
  \<^verbatim>\<open>result->lookahead_char\<close>.\<close>

definition ts_tree_make_error :: "heap \<Rightarrow> size_t \<Rightarrow> size_t \<Rightarrow> char \<Rightarrow> heap \<times> ptr" where
  "ts_tree_make_error h sz pad lookahead =
     (case ts_tree_make_leaf h ts_builtin_sym_error sz pad False of
        (h', result) \<Rightarrow>
          (case result of
             Ptr a \<Rightarrow> (h'[a := (h' ! a)\<lparr>lookahead_char := lookahead\<rparr>], result)
           | NULL \<Rightarrow> (h', result)))"

text \<open>\<^verbatim>\<open>ts_tree_retain\<close>: \<^verbatim>\<open>tree->ref_count++\<close>.\<close>

fun ts_tree_retain :: "heap \<Rightarrow> ptr \<Rightarrow> heap option" where
  "ts_tree_retain h NULL = None"
| "ts_tree_retain h (Ptr a) =
     (if a < length h
      then Some (h[a := (h ! a)\<lparr>ref_count := ref_count (h ! a) + 1\<rparr>])
      else None)"

text \<open>\<^verbatim>\<open>ts_tree_total_size\<close>.\<close>

definition ts_tree_total_size :: "TSTree \<Rightarrow> size_t" where
  "ts_tree_total_size t = padding t + size' t"

subsection \<open>\<^verbatim>\<open>ts_tree_make_node\<close>\<close>

text \<open>
  The first loop (lines 36 to 51): retain each child, accumulate \<^verbatim>\<open>size\<close>, \<^verbatim>\<open>padding\<close>
  and \<^verbatim>\<open>visible_child_count\<close>. The argument \<open>i\<close> is the loop index; the list holds
  the children from index \<open>i\<close> on.
\<close>

fun make_node_measure ::
  "heap \<Rightarrow> ptr list \<Rightarrow> nat \<Rightarrow> size_t \<times> size_t \<times> size_t \<Rightarrow>
   (heap \<times> size_t \<times> size_t \<times> size_t) option" where
  "make_node_measure h [] i (sz, pad, vcc) = Some (h, sz, pad, vcc)"
| "make_node_measure h (child # rest) i (sz, pad, vcc) =
     (case ts_tree_retain h child of
        None \<Rightarrow> None
      | Some h' \<Rightarrow>
          (case deref h' child of
             None \<Rightarrow> None
           | Some c \<Rightarrow>
               make_node_measure h' rest (i + 1)
                 (if i = 0 then size' c else sz + (padding c + size' c),
                  if i = 0 then padding c else pad,
                  if ts_tree_is_visible c then vcc + 1
                  else vcc + visible_child_count c)))"

text \<open>The options (lines 56 to 61). \<^verbatim>\<open>children[0]\<close> is read only when
  \<^verbatim>\<open>child_count == 1\<close>.\<close>

definition make_node_options :: "heap \<Rightarrow> ptr list \<Rightarrow> bool \<Rightarrow> TSTreeOptions option" where
  "make_node_options h cs is_hidden =
     (let options0 = (if is_hidden then 0 OR TSTreeOptionsHidden else 0) in
      if length cs = 1 then
        (case deref h (cs ! 0) of
           None \<Rightarrow> None
         | Some c \<Rightarrow>
             Some (if ts_tree_is_visible c \<or> ts_tree_is_wrapper c
                   then options0 OR (TSTreeOptionsWrapper OR TSTreeOptionsHidden)
                   else options0))
      else Some options0)"

text \<open>
  \<^verbatim>\<open>ts_tree_visible_children(child, &n)\<close> followed by the inner loop (lines 94 to
  100): the first \<open>n\<close> entries of the child's array, each offset shifted. Reading
  behind the end of the array is undefined.
\<close>

definition grandchild_entries ::
  "TSTreeChild list \<Rightarrow> size_t \<Rightarrow> size_t \<Rightarrow> TSTreeChild list option" where
  "grandchild_entries grandchildren n off =
     (if unat n \<le> length grandchildren
      then Some (map (\<lambda>g. \<lparr> tree = tree g, offset = off + offset g \<rparr>)
                     (take (unat n) grandchildren))
      else None)"

text \<open>
  The second loop (lines 83 to 104). \<open>vis\<close> is the part of the new array written so
  far (its length is \<^verbatim>\<open>vis_i\<close>), \<open>off\<close> is \<^verbatim>\<open>offset\<close>.
\<close>

fun make_node_flatten ::
  "heap \<Rightarrow> ptr list \<Rightarrow> nat \<Rightarrow> TSTreeChild list \<times> size_t \<Rightarrow>
   (TSTreeChild list \<times> size_t) option" where
  "make_node_flatten h [] i (vis, off) = Some (vis, off)"
| "make_node_flatten h (child # rest) i (vis, off) =
     (case deref h child of
        None \<Rightarrow> None
      | Some c \<Rightarrow>
          (let off1 = (if i > 0 then off + padding c else off) in
           if ts_tree_is_visible c
           then make_node_flatten h rest (i + 1)
                  (vis @ [\<lparr> tree = child, offset = off1 \<rparr>], off1 + size' c)
           else
             (case grandchild_entries (visible_children c) (visible_child_count c) off1 of
                None \<Rightarrow> None
              | Some gs \<Rightarrow> make_node_flatten h rest (i + 1) (vis @ gs, off1 + size' c))))"

text \<open>
  The whole function. The array behind the new struct is allocated with
  \<^verbatim>\<open>visible_child_count\<close> entries and the second loop writes \<^verbatim>\<open>vis_i\<close> of them; a
  run in which the two differ (possible only when the count has wrapped around)
  writes behind the allocation, which is undefined.
\<close>

definition ts_tree_make_node ::
  "heap \<Rightarrow> TSSymbol \<Rightarrow> ptr list \<Rightarrow> bool \<Rightarrow> (heap \<times> ptr) option" where
  "ts_tree_make_node h symb cs is_hidden =
     (case make_node_measure h cs 0 (0, 0, 0) of
        None \<Rightarrow> None
      | Some (h1, sz, pad, vcc) \<Rightarrow>
          (case make_node_options h1 cs is_hidden of
             None \<Rightarrow> None
           | Some opts \<Rightarrow>
               (case make_node_flatten h1 cs 0 ([], 0) of
                  None \<Rightarrow> None
                | Some (vis, off) \<Rightarrow>
                    if length vis = unat vcc
                    then Some (malloc h1 \<lparr> symbol = symb,
                                           options = opts,
                                           ref_count = 1,
                                           padding = pad,
                                           size' = sz,
                                           lookahead_char = CHR 0x00,
                                           children = cs,
                                           visible_child_count = vcc,
                                           visible_children = vis \<rparr>)
                    else None)))"

section \<open>Structural equality\<close>

text \<open>
  The loop of \<^verbatim>\<open>ts_tree_equals\<close> (lines 136 to 139) over the pairs of children: it
  returns 0 at the first pair that is not equal and 1 after the last pair.
\<close>

fun equals_children :: "('a \<Rightarrow> bool option) \<Rightarrow> 'a list \<Rightarrow> bool option" where
  "equals_children eq [] = Some True"
| "equals_children eq (x # xs) =
     Option.bind (eq x) (\<lambda>r. if \<not> r then Some False else equals_children eq xs)"

lemma equals_children_mono [partial_function_mono]:
  assumes "\<And>x. mono_option (\<lambda>f. F f x)"
  shows "mono_option (\<lambda>f. equals_children (F f) xs)"
proof (induction xs)
  case Nil
  show ?case by (simp add: option.const_mono)
next
  case (Cons x xs)
  show ?case
    unfolding equals_children.simps
    by (intro partial_function_mono assms Cons)
qed

text \<open>
  \<^verbatim>\<open>ts_tree_equals\<close>. The recursion follows pointers of the heap, which C does not
  know to be acyclic: a call that does not return is \<open>None\<close>, as is a call that
  dereferences an invalid pointer. The C result 0 or 1 is a \<open>bool\<close>. The two child
  arrays have the same length where the loop runs, so the loop is over their \<open>zip\<close>.
\<close>

partial_function (option) ts_tree_equals :: "heap \<Rightarrow> ptr \<Rightarrow> ptr \<Rightarrow> bool option" where
  "ts_tree_equals h node1 node2 =
     (case deref h node1 of
        None \<Rightarrow> None
      | Some n1 \<Rightarrow>
          (case deref h node2 of
             None \<Rightarrow> None
           | Some n2 \<Rightarrow>
               if symbol n1 \<noteq> symbol n2 then Some False
               else if lookahead_char n1 \<noteq> lookahead_char n2 then Some False
               else if child_count n1 \<noteq> child_count n2 then Some False
               else if visible_child_count n1 \<noteq> visible_child_count n2 then Some False
               else equals_children (\<lambda>c. ts_tree_equals h (fst c) (snd c))
                      (zip (children n1) (children n2))))"

declare ts_tree_equals.simps [code]

section \<open>Serialization\<close>

text \<open>
  \<^verbatim>\<open>snprintf(dst, limit, ...)\<close> on a buffer, where \<open>text\<close> is the formatted output: with
  \<open>limit = 0\<close> nothing is written; otherwise at most \<open>limit - 1\<close> characters and a
  terminating zero are stored from position \<open>at\<close> on. Storing behind the end of the
  buffer is undefined. The result is the length of the whole output.
\<close>

definition snprintf :: "char list \<Rightarrow> nat \<Rightarrow> nat \<Rightarrow> string \<Rightarrow> (char list \<times> nat) option" where
  "snprintf buf at limit text =
     (if limit = 0 then Some (buf, length text)
      else
        (let out = take (limit - 1) text @ [CHR 0x00] in
         if at + length out \<le> length buf
         then Some (take at buf @ out @ drop (at + length out) buf, length text)
         else None))"

text \<open>
  \<^verbatim>\<open>cursor += snprintf(*writer, limit, ...)\<close>, where \<^verbatim>\<open>writer\<close> points to \<^verbatim>\<open>cursor\<close> when
  \<^verbatim>\<open>limit > 0\<close> and to \<^verbatim>\<open>string\<close> otherwise. The state is the buffer and the cursor.
\<close>

definition emit :: "nat \<Rightarrow> nat \<Rightarrow> string \<Rightarrow> char list \<times> nat \<Rightarrow> (char list \<times> nat) option" where
  "emit limit string text st =
     Option.bind (snprintf (fst st) (if limit > 0 then snd st else string) limit text)
       (\<lambda>r. Some (fst r, snd st + snd r))"

text \<open>\<^verbatim>\<open>write_lookahead_to_string\<close>, called as the argument of \<^verbatim>\<open>cursor += ...\<close>.\<close>

definition write_lookahead_to_string ::
  "nat \<Rightarrow> nat \<Rightarrow> char \<Rightarrow> char list \<times> nat \<Rightarrow> (char list \<times> nat) option" where
  "write_lookahead_to_string limit string lookahead st =
     (if lookahead = CHR 0x00 then emit limit string ''<EOF>'' st
      else emit limit string [CHR 0x27, lookahead, CHR 0x27] st)"

text \<open>\<^verbatim>\<open>symbol_names[tree->symbol]\<close>; an index outside the table is undefined.\<close>

definition symbol_name :: "string list \<Rightarrow> TSSymbol \<Rightarrow> string option" where
  "symbol_name symbol_names s =
     (if unat s < length symbol_names then Some (symbol_names ! unat s) else None)"

text \<open>The loop over the children (lines 186 to 189); \<open>rec\<close> is the recursive call.\<close>

fun write_children ::
  "(ptr \<Rightarrow> char list \<Rightarrow> nat \<Rightarrow> (char list \<times> nat) option) \<Rightarrow> nat \<Rightarrow> nat \<Rightarrow> ptr list \<Rightarrow>
   char list \<times> nat \<Rightarrow> (char list \<times> nat) option" where
  "write_children rec limit string [] st = Some st"
| "write_children rec limit string (child # rest) st =
     Option.bind (rec child (fst st) (if limit > 0 then snd st else string))
       (\<lambda>r. write_children rec limit string rest (fst r, snd st + snd r))"

lemma write_children_mono [partial_function_mono]:
  assumes "\<And>c b a. mono_option (\<lambda>f. F f c b a)"
  shows "mono_option (\<lambda>f. write_children (F f) limit string cs st)"
proof (induction cs arbitrary: st)
  case Nil
  show ?case by (simp add: option.const_mono)
next
  case (Cons c cs)
  show ?case
    unfolding write_children.simps
    by (intro partial_function_mono assms Cons)
qed

text \<open>
  \<^verbatim>\<open>tree_write_to_string\<close>. The buffer is passed in and returned; \<open>string\<close> is the
  position in it where this call starts, and the second result is
  \<^verbatim>\<open>cursor - string\<close>.
\<close>

partial_function (option) tree_write_to_string ::
  "heap \<Rightarrow> string list \<Rightarrow> nat \<Rightarrow> bool \<Rightarrow> ptr \<Rightarrow> char list \<Rightarrow> nat \<Rightarrow>
   (char list \<times> nat) option" where
  "tree_write_to_string h symbol_names limit is_root node buf string =
     (if node = NULL then snprintf buf string limit ''(NULL)''
      else
        (case deref h node of
           None \<Rightarrow> None
         | Some t \<Rightarrow>
             (let visible = (ts_tree_is_visible t \<or> is_root) in
              do {
                st1 \<leftarrow> (if visible \<and> \<not> is_root then emit limit string '' '' (buf, string)
                        else Some (buf, string));
                st2 \<leftarrow> (if visible then
                          (if symbol t = ts_builtin_sym_error then
                             do {
                               st \<leftarrow> emit limit string ''(ERROR '' st1;
                               write_lookahead_to_string limit string (lookahead_char t) st
                             }
                           else
                             do {
                               name \<leftarrow> symbol_name symbol_names (symbol t);
                               emit limit string (''('' @ name) st1
                             })
                        else Some st1);
                st3 \<leftarrow> write_children
                         (\<lambda>child b at. tree_write_to_string h symbol_names limit False child b at)
                         limit string (children t) st2;
                st4 \<leftarrow> (if visible then emit limit string '')'' st3 else Some st3);
                Some (fst st4, snd st4 - string)
              })))"

declare tree_write_to_string.simps [code]

text \<open>
  \<^verbatim>\<open>ts_tree_string\<close>: a first pass with \<open>limit = 0\<close> on the one-byte \<^verbatim>\<open>SCRATCH\<close>, then
  a second pass into a fresh buffer of the measured size. \<^verbatim>\<open>malloc\<close> does not
  initialise the buffer: \<open>uninit\<close> gives the bytes it holds. The result is the
  buffer.
\<close>

definition ts_tree_string ::
  "heap \<Rightarrow> string list \<Rightarrow> (nat \<Rightarrow> char) \<Rightarrow> ptr \<Rightarrow> char list option" where
  "ts_tree_string h symbol_names uninit node =
     do {
       r1 \<leftarrow> tree_write_to_string h symbol_names 0 True node [CHR 0x00] 0;
       let sz = snd r1 + 1;
       r2 \<leftarrow> tree_write_to_string h symbol_names sz True node (map uninit [0..<sz]) 0;
       Some (fst r2)
     }"

section \<open>Notions used in the statements\<close>

text \<open>A pointer is valid in a heap when it can be dereferenced.\<close>

definition valid :: "heap \<Rightarrow> ptr \<Rightarrow> bool" where
  "valid h p = (case p of NULL \<Rightarrow> False | Ptr a \<Rightarrow> a < length h)"

text \<open>The struct behind a valid pointer.\<close>

definition node_at :: "heap \<Rightarrow> ptr \<Rightarrow> TSTree" where
  "node_at h p = the (deref h p)"

text \<open>
  The heap after one \<^verbatim>\<open>ts_tree_retain\<close> for every slot of the child array \<open>cs\<close>:
  each struct's \<open>ref_count\<close> grows by the number of slots that point to it.
\<close>

definition retained :: "heap \<Rightarrow> ptr list \<Rightarrow> heap" where
  "retained h cs =
     map (\<lambda>(a, t). t\<lparr>ref_count := ref_count t + of_nat (count_list cs (Ptr a))\<rparr>)
         (zip [0..<length h] h)"

text \<open>What one child adds to its parent's \<open>visible_child_count\<close>.\<close>

definition visible_contribution :: "TSTree \<Rightarrow> size_t" where
  "visible_contribution c = (if ts_tree_is_visible c then 1 else visible_child_count c)"

text \<open>
  A heap is ordered when every child pointer points to a struct allocated before
  its parent. The constructors only build ordered heaps, and on an ordered heap the
  recursive functions return.
\<close>

fun points_below :: "nat \<Rightarrow> ptr \<Rightarrow> bool" where
  "points_below a NULL = False"
| "points_below a (Ptr b) = (b < a)"

definition heap_ordered :: "heap \<Rightarrow> bool" where
  "heap_ordered h =
     list_all (\<lambda>(a, t). list_all (points_below a) (children t)) (zip [0..<length h] h)"

text \<open>The fields that \<^verbatim>\<open>ts_tree_equals\<close> reads.\<close>

definition equality_fields :: "TSTree \<Rightarrow> TSSymbol \<times> char \<times> ptr list \<times> size_t" where
  "equality_fields t = (symbol t, lookahead_char t, children t, visible_child_count t)"

text \<open>Two leaves with the same symbol and different size, padding and hidden flag.\<close>

definition two_leaves :: heap where
  "two_leaves = fst (ts_tree_make_leaf (fst (ts_tree_make_leaf [] 7 1 0 False)) 7 5 3 True)"

text \<open>
  The rendering as the spec describes it, for comparison with the buffer-writing
  code: a visible node is \<open>(name child child ...)\<close> with the name looked up in the
  table, the error symbol is \<open>(ERROR lookahead)\<close> with the lookahead as \<open>'c'\<close> or
  \<open><EOF>\<close>, a hidden node contributes only its children, and the topmost node counts
  as visible. The spec leaves the separator and the null pointer open; here every
  visible node but the topmost is preceded by one space and a null pointer is
  \<open>(NULL)\<close>, as in the code.
\<close>

definition lookahead_text :: "char \<Rightarrow> string" where
  "lookahead_text c = (if c = CHR 0x00 then ''<EOF>'' else [CHR 0x27, c, CHR 0x27])"

fun render_children :: "(ptr \<Rightarrow> string option) \<Rightarrow> ptr list \<Rightarrow> string option" where
  "render_children rec [] = Some []"
| "render_children rec (c # cs) =
     Option.bind (rec c) (\<lambda>s. Option.bind (render_children rec cs) (\<lambda>ss. Some (s @ ss)))"

lemma render_children_mono [partial_function_mono]:
  assumes "\<And>c. mono_option (\<lambda>f. F f c)"
  shows "mono_option (\<lambda>f. render_children (F f) cs)"
proof (induction cs)
  case Nil
  show ?case by (simp add: option.const_mono)
next
  case (Cons c cs)
  show ?case
    unfolding render_children.simps
    by (intro partial_function_mono assms Cons)
qed

partial_function (option) rendered :: "heap \<Rightarrow> string list \<Rightarrow> bool \<Rightarrow> ptr \<Rightarrow> string option" where
  "rendered h symbol_names is_root node =
     (if node = NULL then Some ''(NULL)''
      else
        (case deref h node of
           None \<Rightarrow> None
         | Some t \<Rightarrow>
             if ts_tree_is_visible t \<or> is_root then
               do {
                 label \<leftarrow> (if symbol t = ts_builtin_sym_error
                           then Some (''ERROR '' @ lookahead_text (lookahead_char t))
                           else symbol_name symbol_names (symbol t));
                 body \<leftarrow> render_children (\<lambda>c. rendered h symbol_names False c) (children t);
                 Some ((if is_root then [] else '' '') @ ''('' @ label @ body @ '')'')
               }
             else render_children (\<lambda>c. rendered h symbol_names False c) (children t)))"

declare rendered.simps [code]

text \<open>
  The buffer after \<open>txt\<close> and a terminating zero have been stored from position \<open>s\<close>
  on (nothing is stored for an empty text, because then no \<^verbatim>\<open>snprintf\<close> runs); the
  buffer after a call with the given \<open>limit\<close>; and the condition under which the
  stores stay inside the buffer and nothing is truncated.
\<close>

definition written :: "char list \<Rightarrow> nat \<Rightarrow> string \<Rightarrow> char list" where
  "written buf s txt =
     (if txt = [] then buf else take s buf @ txt @ CHR 0x00 # drop (s + length txt + 1) buf)"

definition buffer_after :: "nat \<Rightarrow> char list \<Rightarrow> nat \<Rightarrow> string \<Rightarrow> char list" where
  "buffer_after limit buf s txt = (if limit = 0 then buf else written buf s txt)"

definition fits :: "nat \<Rightarrow> char list \<Rightarrow> nat \<Rightarrow> string \<Rightarrow> bool" where
  "fits limit buf s txt = (limit = 0 \<or> (length txt < limit \<and> s + length txt + 1 \<le> length buf))"

text \<open>
  The trees of the rendering examples: \<open>name1\<close> over the leaves \<open>name2\<close> and \<open>name3\<close>;
  the same with a hidden wrapper (whose symbol 9 has no name) around \<open>name2\<close>; and a
  hidden leaf.
\<close>

definition example_names :: "string list" where
  "example_names = [''ERROR'', ''name1'', ''name2'', ''name3'']"

definition plain_tree :: "(heap \<times> ptr) option" where
  "plain_tree =
     (let l2 = ts_tree_make_leaf [] 2 1 0 False;
          l3 = ts_tree_make_leaf (fst l2) 3 1 1 False
      in ts_tree_make_node (fst l3) 1 [snd l2, snd l3] False)"

definition wrapped_tree :: "(heap \<times> ptr) option" where
  "wrapped_tree =
     (let l2 = ts_tree_make_leaf [] 2 1 0 False;
          l3 = ts_tree_make_leaf (fst l2) 3 1 1 False
      in Option.bind (ts_tree_make_node (fst l3) 9 [snd l2] True)
           (\<lambda>w. ts_tree_make_node (fst w) 1 [snd w, snd l3] False))"

definition hidden_leaf :: "heap \<times> ptr" where
  "hidden_leaf = ts_tree_make_leaf [] 2 1 0 True"

text \<open>
  The entries of an array of visible children lie in order between \<open>lo\<close> and \<open>hi\<close>
  without overlap: each entry points to a valid node whose content, from the
  entry's offset to the offset plus the node's size, starts at or after the end of
  the content of the entry before it (or \<open>lo\<close>) and ends at or before \<open>hi\<close>. The
  numbers are natural numbers, not \<^verbatim>\<open>size_t\<close>.
\<close>

fun entries_chain :: "heap \<Rightarrow> nat \<Rightarrow> TSTreeChild list \<Rightarrow> nat \<Rightarrow> bool" where
  "entries_chain h lo [] hi = (lo \<le> hi)"
| "entries_chain h lo (e # es) hi =
     (valid h (tree e) \<and> lo \<le> unat (offset e) \<and>
      entries_chain h (unat (offset e) + unat (size' (node_at h (tree e)))) es hi)"

text \<open>Every node of the heap has its visible children in order within its size.\<close>

definition heap_chains :: "heap \<Rightarrow> bool" where
  "heap_chains h = list_all (\<lambda>t. entries_chain h 0 (visible_children t) (unat (size' t))) h"

text \<open>
  What the second loop of \<^verbatim>\<open>ts_tree_make_node\<close> adds to \<^verbatim>\<open>offset\<close> over the children from
  index \<open>i\<close> on, as a natural number: the size of the new node if nothing wraps
  around.
\<close>

fun content_extent :: "heap \<Rightarrow> ptr list \<Rightarrow> nat \<Rightarrow> nat" where
  "content_extent h [] i = 0"
| "content_extent h (c # cs) i =
     (if i > 0 then unat (padding (node_at h c)) else 0) + unat (size' (node_at h c)) +
     content_extent h cs (i + 1)"

text \<open>A node over two leaves of size 0 and padding 0 and a leaf of size 1 and padding 2.\<close>

definition zero_width :: "(heap \<times> ptr) option" where
  "zero_width =
     (let z0 = ts_tree_make_leaf [] 1 0 0 False;
          z1 = ts_tree_make_leaf (fst z0) 2 0 0 False;
          l = ts_tree_make_leaf (fst z1) 3 1 2 False
      in ts_tree_make_node (fst l) 4 [snd z0, snd z1, snd l] False)"

text \<open>
  The number of entries that the second loop of \<^verbatim>\<open>ts_tree_make_node\<close> writes for the
  children \<open>cs\<close>, as a natural number; and the property of a heap that every node's
  array of visible children has as many entries as its \<open>visible_child_count\<close> says.
\<close>

definition visible_total :: "heap \<Rightarrow> ptr list \<Rightarrow> nat" where
  "visible_total h cs =
     (\<Sum>c\<leftarrow>cs. if ts_tree_is_visible (node_at h c) then 1
               else unat (visible_child_count (node_at h c)))"

definition heap_counts :: "heap \<Rightarrow> bool" where
  "heap_counts h =
     list_all (\<lambda>t. length (visible_children t) = unat (visible_child_count t)) h"

text \<open>
  A heap for the visible-child count: the visible leaves at 0, 1 and 3, and at 2 a
  hidden node over the first two leaves, whose own count is 2.
\<close>

definition count_heap :: heap where
  "count_heap =
     (let l1 = ts_tree_make_leaf [] 1 1 0 False;
          l2 = ts_tree_make_leaf (fst l1) 2 1 0 False
      in case ts_tree_make_node (fst l2) 3 [snd l1, snd l2] True of
           None \<Rightarrow> []
         | Some hn \<Rightarrow> fst (ts_tree_make_leaf (fst hn) 4 1 0 False))"

text \<open>
  The scenario of the spec: leaves \<open>A\<close> (size 1, padding 0) and \<open>B\<close> (size 2, padding
  1), the hidden node \<open>W\<close> over \<open>B\<close>, and the root \<open>R\<close> over \<open>A\<close> and \<open>W\<close>. The symbols
  are 1 to 4. Each constant is the heap after the construction and the new pointer.
\<close>

definition scenario_A :: "heap \<times> ptr" where
  "scenario_A = ts_tree_make_leaf [] 1 1 0 False"

definition scenario_B :: "heap \<times> ptr" where
  "scenario_B = ts_tree_make_leaf (fst scenario_A) 2 2 1 False"

definition scenario_W :: "(heap \<times> ptr) option" where
  "scenario_W = ts_tree_make_node (fst scenario_B) 3 [snd scenario_B] True"

definition scenario_R :: "(heap \<times> ptr) option" where
  "scenario_R =
     Option.bind scenario_W
       (\<lambda>w. ts_tree_make_node (fst w) 4 [snd scenario_A, snd w] False)"

section \<open>Facts about retaining\<close>

lemma length_retained [simp]: "length (retained h cs) = length h"
  by (simp add: retained_def)

lemma nth_retained:
  "a < length h \<Longrightarrow>
   retained h cs ! a =
     (h ! a)\<lparr>ref_count := ref_count (h ! a) + of_nat (count_list cs (Ptr a))\<rparr>"
  by (simp add: retained_def)

lemma retained_Nil [simp]: "retained h [] = h"
  by (rule nth_equalityI) (simp_all add: nth_retained)

lemma retain_retained:
  "ts_tree_retain h c = Some h1 \<Longrightarrow> retained h1 cs = retained h (c # cs)"
  apply (cases c; simp split: if_splits)
  apply (rule nth_equalityI)
   apply (auto simp: nth_retained nth_list_update)
  done

lemma retain_valid: "ts_tree_retain h c = Some h1 \<Longrightarrow> valid h c \<and> length h1 = length h"
  by (cases c) (auto simp: valid_def split: if_splits)

lemma valid_deref: "valid h c \<longleftrightarrow> deref h c \<noteq> None"
  by (cases c) (auto simp: valid_def)

lemma valid_length: "length h1 = length h \<Longrightarrow> valid h1 c = valid h c"
  by (cases c) (auto simp: valid_def)

lemma valid_retained [simp]: "valid (retained h cs) c = valid h c"
  by (cases c) (simp_all add: valid_def)

lemma valid_append: "valid h c \<Longrightarrow> valid (h @ [t]) c"
  by (cases c) (auto simp: valid_def)

lemma node_at_append: "valid h c \<Longrightarrow> node_at (h @ [t]) c = node_at h c"
  by (cases c) (auto simp: valid_def node_at_def nth_append)

lemma node_at_new [simp]: "node_at (h @ [t]) (Ptr (length h)) = t"
  by (simp add: node_at_def)

lemma node_at_retained:
  "valid h c \<Longrightarrow>
   node_at (retained h cs) c =
     (node_at h c)\<lparr>ref_count := ref_count (node_at h c) + of_nat (count_list cs c)\<rparr>"
  by (cases c) (auto simp: valid_def node_at_def nth_retained)

lemma retain_fields:
  assumes "ts_tree_retain h c = Some h1"
  shows "padding (node_at h1 p) = padding (node_at h p)"
    and "size' (node_at h1 p) = size' (node_at h p)"
    and "options (node_at h1 p) = options (node_at h p)"
    and "visible_child_count (node_at h1 p) = visible_child_count (node_at h p)"
    and "visible_children (node_at h1 p) = visible_children (node_at h p)"
  using assms
  by (cases c; cases p; auto simp: node_at_def nth_list_update split: if_splits)+

lemma retain_visible:
  "ts_tree_retain h c = Some h1 \<Longrightarrow>
   ts_tree_is_visible (node_at h1 p) = ts_tree_is_visible (node_at h p)"
  by (simp add: ts_tree_is_visible_def retain_fields)

lemma retain_contribution:
  "ts_tree_retain h c = Some h1 \<Longrightarrow>
   visible_contribution (node_at h1 p) = visible_contribution (node_at h p)"
  by (simp add: visible_contribution_def retain_fields retain_visible)

lemma retained_fields:
  assumes "valid h c"
  shows "padding (node_at (retained h cs) c) = padding (node_at h c)"
    and "size' (node_at (retained h cs) c) = size' (node_at h c)"
    and "options (node_at (retained h cs) c) = options (node_at h c)"
    and "visible_child_count (node_at (retained h cs) c) = visible_child_count (node_at h c)"
    and "visible_children (node_at (retained h cs) c) = visible_children (node_at h c)"
  using assms by (simp_all add: node_at_retained)

section \<open>The first loop in closed form\<close>

lemma contribution_if:
  "(if ts_tree_is_visible c then v + 1 else v + visible_child_count c) =
   v + visible_contribution c"
  by (simp add: visible_contribution_def)

lemma measure_general:
  "make_node_measure h cs i (sz, pad, vcc) = Some (h', sz', pad', vcc') \<Longrightarrow> 0 < i \<Longrightarrow>
     h' = retained h cs \<and> (\<forall>c\<in>set cs. valid h c) \<and>
     sz' = sz + sum_list (map (\<lambda>c. padding (node_at h c) + size' (node_at h c)) cs) \<and>
     pad' = pad \<and>
     vcc' = vcc + sum_list (map (\<lambda>c. visible_contribution (node_at h c)) cs)"
proof (induction cs arbitrary: h i sz pad vcc)
  case Nil
  then show ?case by simp
next
  case (Cons child rest)
  from Cons.prems(1) obtain h1 c where
    r: "ts_tree_retain h child = Some h1" and d: "deref h1 child = Some c"
    and rec: "make_node_measure h1 rest (i + 1)
                 (sz + (padding c + size' c), pad, vcc + visible_contribution c)
               = Some (h', sz', pad', vcc')"
    using Cons.prems(2) by (auto simp: contribution_if split: option.splits)
  have c: "c = node_at h1 child" using d by (simp add: node_at_def)
  from Cons.IH [OF rec] have
    1: "h' = retained h1 rest" and 2: "\<forall>x\<in>set rest. valid h1 x"
    and 3: "sz' = sz + (padding c + size' c) +
               sum_list (map (\<lambda>c. padding (node_at h1 c) + size' (node_at h1 c)) rest)"
    and 4: "pad' = pad"
    and 5: "vcc' = vcc + visible_contribution c +
               sum_list (map (\<lambda>c. visible_contribution (node_at h1 c)) rest)"
    by simp_all
  have len: "length h1 = length h" using retain_valid [OF r] by simp
  show ?case
    using 1 2 3 4 5 retain_valid [OF r]
    by (simp add: retain_retained [OF r] valid_length [OF len] c
        retain_fields [OF r] retain_contribution [OF r] add.assoc)
qed

lemma measure_first:
  assumes "make_node_measure h (c0 # rest) 0 (0, 0, 0) = Some (h', sz', pad', vcc')"
  shows "h' = retained h (c0 # rest)" and "\<forall>c\<in>set (c0 # rest). valid h c"
    and "sz' = size' (node_at h c0) +
               sum_list (map (\<lambda>c. padding (node_at h c) + size' (node_at h c)) rest)"
    and "pad' = padding (node_at h c0)"
    and "vcc' = sum_list (map (\<lambda>c. visible_contribution (node_at h c)) (c0 # rest))"
proof -
  from assms obtain h1 c where
    r: "ts_tree_retain h c0 = Some h1" and d: "deref h1 c0 = Some c"
    and rec: "make_node_measure h1 rest 1 (size' c, padding c, visible_contribution c)
               = Some (h', sz', pad', vcc')"
    by (auto simp: contribution_if split: option.splits)
  have c: "c = node_at h1 c0" using d by (simp add: node_at_def)
  have len: "length h1 = length h" using retain_valid [OF r] by simp
  note g = measure_general [OF rec]
  show "h' = retained h (c0 # rest)" using g by (simp add: retain_retained [OF r])
  show "\<forall>c\<in>set (c0 # rest). valid h c"
    using g retain_valid [OF r] by (simp add: valid_length [OF len])
  show "sz' = size' (node_at h c0) +
               sum_list (map (\<lambda>c. padding (node_at h c) + size' (node_at h c)) rest)"
    using g by (simp add: c retain_fields [OF r])
  show "pad' = padding (node_at h c0)" using g by (simp add: c retain_fields [OF r])
  show "vcc' = sum_list (map (\<lambda>c. visible_contribution (node_at h c)) (c0 # rest))"
    using g by (simp add: c retain_contribution [OF r])
qed

lemma measure_heap:
  assumes "make_node_measure h cs 0 (0, 0, 0) = Some (h', sz', pad', vcc')"
  shows "h' = retained h cs" and "\<forall>c\<in>set cs. valid h c"
    and "vcc' = sum_list (map (\<lambda>c. visible_contribution (node_at h c)) cs)"
proof -
  show "h' = retained h cs"
  proof (cases cs)
    case Nil then show ?thesis using assms by simp
  next
    case (Cons c0 rest) then show ?thesis using measure_first(1) assms by blast
  qed
  show "\<forall>c\<in>set cs. valid h c"
  proof (cases cs)
    case Nil then show ?thesis by simp
  next
    case (Cons c0 rest) then show ?thesis using measure_first(2) assms by blast
  qed
  show "vcc' = sum_list (map (\<lambda>c. visible_contribution (node_at h c)) cs)"
  proof (cases cs)
    case Nil then show ?thesis using assms by simp
  next
    case (Cons c0 rest) then show ?thesis using measure_first(5) assms by blast
  qed
qed

lemma valid_update: "valid (h[a := x]) c = valid h c"
  by (cases c) (simp_all add: valid_def)

lemma measure_returns:
  "\<forall>c\<in>set cs. valid h c \<Longrightarrow> \<exists>r. make_node_measure h cs i (sz, pad, vcc) = Some r"
proof (induction cs arbitrary: h i sz pad vcc)
  case Nil
  show ?case by simp
next
  case (Cons child rest)
  from Cons.prems obtain a where a: "child = Ptr a" "a < length h"
    by (cases child) (auto simp: valid_def)
  let ?h1 = "h[a := (h ! a)\<lparr>ref_count := ref_count (h ! a) + 1\<rparr>]"
  have r: "ts_tree_retain h child = Some ?h1" using a by simp
  have d: "deref ?h1 child = Some (?h1 ! a)" using a by simp
  have "\<forall>c\<in>set rest. valid ?h1 c"
    using Cons.prems by (simp add: valid_update)
  from Cons.IH [OF this, of "i + 1"
      "if i = 0 then size' (?h1 ! a) else sz + (padding (?h1 ! a) + size' (?h1 ! a))"
      "if i = 0 then padding (?h1 ! a) else pad"
      "if ts_tree_is_visible (?h1 ! a) then vcc + 1
       else vcc + visible_child_count (?h1 ! a)"]
  obtain res where
    "make_node_measure ?h1 rest (i + 1)
       (if i = 0 then size' (?h1 ! a) else sz + (padding (?h1 ! a) + size' (?h1 ! a)),
        if i = 0 then padding (?h1 ! a) else pad,
        if ts_tree_is_visible (?h1 ! a) then vcc + 1
        else vcc + visible_child_count (?h1 ! a)) = Some res"
    by blast
  then have "make_node_measure h (child # rest) i (sz, pad, vcc) = Some res"
    by (simp add: r d del: ts_tree_retain.simps deref.simps)
  then show ?case by blast
qed

text \<open>What a successful call of \<^verbatim>\<open>ts_tree_make_node\<close> consists of.\<close>

lemma make_node_SomeD:
  assumes "ts_tree_make_node h symb cs is_hidden = Some (h', p)"
  obtains sz pad vcc opts vis off where
    "make_node_measure h cs 0 (0, 0, 0) = Some (retained h cs, sz, pad, vcc)"
    "make_node_options (retained h cs) cs is_hidden = Some opts"
    "make_node_flatten (retained h cs) cs 0 ([], 0) = Some (vis, off)"
    "length vis = unat vcc"
    "p = Ptr (length h)"
    "h' = retained h cs @
       [\<lparr> symbol = symb, options = opts, ref_count = 1, padding = pad, size' = sz,
          lookahead_char = CHR 0x00, children = cs, visible_child_count = vcc,
          visible_children = vis \<rparr>]"
    "\<forall>c\<in>set cs. valid h c"
proof -
  from assms obtain h1 sz pad vcc where
    m: "make_node_measure h cs 0 (0, 0, 0) = Some (h1, sz, pad, vcc)"
    by (auto simp: ts_tree_make_node_def split: option.splits)
  have h1: "h1 = retained h cs" and v: "\<forall>c\<in>set cs. valid h c"
    using measure_heap [OF m] by simp_all
  from assms m obtain opts where
    o: "make_node_options h1 cs is_hidden = Some opts"
    by (auto simp: ts_tree_make_node_def split: option.splits)
  from assms m o obtain vis off where
    f: "make_node_flatten h1 cs 0 ([], 0) = Some (vis, off)"
    by (auto simp: ts_tree_make_node_def split: option.splits)
  from assms m o f have len: "length vis = unat vcc"
    by (auto simp: ts_tree_make_node_def split: if_splits)
  from assms m o f len have res: "p = Ptr (length h)"
    "h' = retained h cs @
       [\<lparr> symbol = symb, options = opts, ref_count = 1, padding = pad, size' = sz,
          lookahead_char = CHR 0x00, children = cs, visible_child_count = vcc,
          visible_children = vis \<rparr>]"
    by (simp_all add: ts_tree_make_node_def malloc_def h1)
  show thesis
    using that [OF m [unfolded h1] o [unfolded h1] f [unfolded h1] len res v] .
qed

lemma make_node_Nil:
  "ts_tree_make_node h symb [] is_hidden =
     Some (h @ [\<lparr> symbol = symb,
                   options = (if is_hidden then TSTreeOptionsHidden else 0),
                   ref_count = 1, padding = 0, size' = 0, lookahead_char = CHR 0x00,
                   children = [], visible_child_count = 0, visible_children = [] \<rparr>],
           Ptr (length h))"
  by (simp add: ts_tree_make_node_def make_node_options_def malloc_def)

section \<open>The scenario, evaluated\<close>

lemma scenario_A_eval:
  "scenario_A =
     ([\<lparr>symbol = 1, options = 0, ref_count = 1, padding = 0, size' = 1,
         lookahead_char = CHR 0x00, children = [], visible_child_count = 0,
         visible_children = []\<rparr>], Ptr 0)"
  by (simp add: scenario_A_def ts_tree_make_leaf_def malloc_def)

lemma scenario_B_eval:
  "scenario_B =
     ([\<lparr>symbol = 1, options = 0, ref_count = 1, padding = 0, size' = 1,
         lookahead_char = CHR 0x00, children = [], visible_child_count = 0,
         visible_children = []\<rparr>,
       \<lparr>symbol = 2, options = 0, ref_count = 1, padding = 1, size' = 2,
         lookahead_char = CHR 0x00, children = [], visible_child_count = 0,
         visible_children = []\<rparr>], Ptr 1)"
  by (simp add: scenario_B_def scenario_A_eval ts_tree_make_leaf_def malloc_def)

lemma scenario_W_eval:
  "scenario_W =
     Some ([\<lparr>symbol = 1, options = 0, ref_count = 1, padding = 0, size' = 1,
         lookahead_char = CHR 0x00, children = [], visible_child_count = 0,
         visible_children = []\<rparr>,
       \<lparr>symbol = 2, options = 0, ref_count = 2, padding = 1, size' = 2,
         lookahead_char = CHR 0x00, children = [], visible_child_count = 0,
         visible_children = []\<rparr>,
       \<lparr>symbol = 3, options = 5, ref_count = 1, padding = 1, size' = 2,
         lookahead_char = CHR 0x00, children = [Ptr 1], visible_child_count = 1,
         visible_children = [\<lparr>tree = Ptr 1, offset = 0\<rparr>]\<rparr>], Ptr 2)"
  by (simp add: scenario_W_def scenario_B_eval ts_tree_make_node_def make_node_options_def
      malloc_def ts_tree_is_visible_def ts_tree_is_wrapper_def TSTreeOptionsHidden_def
      TSTreeOptionsWrapper_def)

lemma scenario_R_eval:
  "scenario_R =
     Some ([\<lparr>symbol = 1, options = 0, ref_count = 2, padding = 0, size' = 1,
         lookahead_char = CHR 0x00, children = [], visible_child_count = 0,
         visible_children = []\<rparr>,
       \<lparr>symbol = 2, options = 0, ref_count = 2, padding = 1, size' = 2,
         lookahead_char = CHR 0x00, children = [], visible_child_count = 0,
         visible_children = []\<rparr>,
       \<lparr>symbol = 3, options = 5, ref_count = 2, padding = 1, size' = 2,
         lookahead_char = CHR 0x00, children = [Ptr 1], visible_child_count = 1,
         visible_children = [\<lparr>tree = Ptr 1, offset = 0\<rparr>]\<rparr>,
       \<lparr>symbol = 4, options = 0, ref_count = 1, padding = 0, size' = 4,
         lookahead_char = CHR 0x00, children = [Ptr 0, Ptr 2], visible_child_count = 2,
         visible_children = [\<lparr>tree = Ptr 0, offset = 0\<rparr>, \<lparr>tree = Ptr 1, offset = 2\<rparr>]\<rparr>],
       Ptr 3)"
  by (simp add: scenario_R_def scenario_W_eval scenario_A_eval ts_tree_make_node_def
      make_node_options_def malloc_def ts_tree_is_visible_def ts_tree_is_wrapper_def
      TSTreeOptionsHidden_def TSTreeOptionsWrapper_def grandchild_entries_def)

lemma scenario_R_call:
  "ts_tree_make_node (fst (the scenario_W)) 4 [Ptr 0, Ptr 2] False = scenario_R"
  by (simp add: scenario_R_def scenario_W_eval scenario_A_eval)

lemma deref_valid: "valid h c \<Longrightarrow> deref h c = Some (node_at h c)"
  by (cases c) (auto simp: valid_def node_at_def)

lemma visible_retained:
  "valid h c \<Longrightarrow> ts_tree_is_visible (node_at (retained h cs) c) = ts_tree_is_visible (node_at h c)"
  by (simp add: ts_tree_is_visible_def retained_fields)

lemma wrapper_retained:
  "valid h c \<Longrightarrow> ts_tree_is_wrapper (node_at (retained h cs) c) = ts_tree_is_wrapper (node_at h c)"
  by (simp add: ts_tree_is_wrapper_def retained_fields)

lemma wrapper_options:
  assumes "options t = (if b then 0 OR TSTreeOptionsHidden else 0) OR
             (TSTreeOptionsWrapper OR TSTreeOptionsHidden)"
  shows "ts_tree_is_wrapper t \<and> \<not> ts_tree_is_visible t"
  using assms
  by (simp add: ts_tree_is_wrapper_def ts_tree_is_visible_def TSTreeOptionsHidden_def
      TSTreeOptionsWrapper_def)

section \<open>Claims about \<^verbatim>\<open>ts_tree_make_node\<close>\<close>

text \<open>
  C1. For every node that \<^verbatim>\<open>ts_tree_make_node\<close> returns for a non-empty child array
  \<open>c0 .. cn-1\<close>, the node's padding is \<open>c0\<close>'s padding and its size is \<open>c0\<close>'s size
  plus the sum over \<open>i = 1 .. n-1\<close> of \<open>ci\<close>'s padding plus \<open>ci\<close>'s size. The sums are
  sums of \<^verbatim>\<open>size_t\<close>, as in the code. The children are read in the heap after the
  call; the call changes nothing of them but \<open>ref_count\<close>.
\<close>

theorem make_node_extent:
  assumes "ts_tree_make_node h symb cs is_hidden = Some (h', p)" and "cs \<noteq> []"
  shows "padding (node_at h' p) = padding (node_at h' (hd cs)) \<and>
         size' (node_at h' p) =
           size' (node_at h' (hd cs)) +
           sum_list (map (\<lambda>c. padding (node_at h' c) + size' (node_at h' c)) (tl cs))"
proof -
  from assms(2) obtain c0 rest where cs: "cs = c0 # rest" by (cases cs) auto
  from assms(1) obtain sz pad vcc opts vis off where
    m: "make_node_measure h cs 0 (0, 0, 0) = Some (retained h cs, sz, pad, vcc)"
    and p: "p = Ptr (length h)"
    and h': "h' = retained h cs @
       [\<lparr> symbol = symb, options = opts, ref_count = 1, padding = pad, size' = sz,
          lookahead_char = CHR 0x00, children = cs, visible_child_count = vcc,
          visible_children = vis \<rparr>]"
    and v: "\<forall>c\<in>set cs. valid h c"
    by (rule make_node_SomeD)
  have old: "\<And>c. c \<in> set cs \<Longrightarrow> padding (node_at h' c) = padding (node_at h c)
                              \<and> size' (node_at h' c) = size' (node_at h c)"
    using v by (simp add: h' node_at_append retained_fields)
  have new: "node_at h' p = \<lparr> symbol = symb, options = opts, ref_count = 1, padding = pad, size' = sz,
          lookahead_char = CHR 0x00, children = cs, visible_child_count = vcc,
          visible_children = vis \<rparr>"
    using node_at_new [of "retained h cs"] by (simp add: h' p)
  have "map (\<lambda>c. padding (node_at h' c) + size' (node_at h' c)) rest
      = map (\<lambda>c. padding (node_at h c) + size' (node_at h c)) rest"
    by (rule map_cong) (simp_all add: old cs)
  then have sums: "sum_list (map (\<lambda>c. padding (node_at h' c) + size' (node_at h' c)) rest)
      = sum_list (map (\<lambda>c. padding (node_at h c) + size' (node_at h c)) rest)"
    by (rule arg_cong)
  show ?thesis
    using measure_first(3,4) [OF m [unfolded cs]] old [of c0]
    by (simp add: new cs sums)
qed

theorem make_node_extent_witness:
  "ts_tree_make_node (fst (the scenario_W)) 4 [Ptr 0, Ptr 2] False =
     Some (fst (the scenario_R), Ptr 3) \<and>
   padding (node_at (fst (the scenario_R)) (Ptr 3)) = 0 \<and>
   padding (node_at (fst (the scenario_R)) (Ptr 0)) = 0 \<and>
   size' (node_at (fst (the scenario_R)) (Ptr 3)) = 4 \<and>
   size' (node_at (fst (the scenario_R)) (Ptr 0)) +
     (padding (node_at (fst (the scenario_R)) (Ptr 2)) +
      size' (node_at (fst (the scenario_R)) (Ptr 2))) = 4"
proof -
  have mk: "ts_tree_make_node (fst (the scenario_W)) 4 [Ptr 0, Ptr 2] False =
              Some (fst (the scenario_R), Ptr 3)"
    by (simp add: scenario_R_call) (simp add: scenario_R_eval)
  from make_node_extent [OF mk] show ?thesis
    using mk by (simp add: scenario_R_eval node_at_def)
qed

text \<open>
  C2. The visible-child count of a node is what the first loop of
  \<^verbatim>\<open>ts_tree_make_node\<close> computes. For every array of valid children that loop returns,
  and its count is the sum over the children of 1 for a visible child and of the
  child's own \<open>visible_child_count\<close> for a hidden one; every node that
  \<^verbatim>\<open>ts_tree_make_node\<close> returns for these children carries exactly this count, and the
  sum is the same when the children are read in the heap after the call. The
  statement is about the loop itself and does not rest on the second loop or on the
  size of the allocation.
\<close>

theorem make_node_visible_count:
  assumes "\<forall>c\<in>set cs. valid h c"
  shows "\<exists>h1 sz pad vcc.
           make_node_measure h cs 0 (0, 0, 0) = Some (h1, sz, pad, vcc) \<and>
           vcc = sum_list (map (\<lambda>c. if ts_tree_is_visible (node_at h c) then 1
                                     else visible_child_count (node_at h c)) cs) \<and>
           (\<forall>h' p. ts_tree_make_node h symb cs is_hidden = Some (h', p) \<longrightarrow>
              visible_child_count (node_at h' p) = vcc \<and>
              visible_child_count (node_at h' p) =
                sum_list (map (\<lambda>c. if ts_tree_is_visible (node_at h' c) then 1
                                    else visible_child_count (node_at h' c)) cs))"
proof -
  from measure_returns [OF assms, of 0 0 0 0] obtain h1 sz pad vcc where
    m: "make_node_measure h cs 0 (0, 0, 0) = Some (h1, sz, pad, vcc)"
    by (cases "make_node_measure h cs 0 (0, 0, 0)") auto
  have "vcc = sum_list (map (\<lambda>c. visible_contribution (node_at h c)) cs)"
    by (rule measure_heap(3) [OF m])
  then have count: "vcc = sum_list (map (\<lambda>c. if ts_tree_is_visible (node_at h c) then 1
                                     else visible_child_count (node_at h c)) cs)"
    by (simp add: visible_contribution_def)
  have node: "visible_child_count (node_at h' p) = vcc \<and>
              visible_child_count (node_at h' p) =
                sum_list (map (\<lambda>c. if ts_tree_is_visible (node_at h' c) then 1
                                    else visible_child_count (node_at h' c)) cs)"
    if mk: "ts_tree_make_node h symb cs is_hidden = Some (h', p)" for h' p
  proof -
    from mk obtain sz' pad' vcc' opts vis off where
      m': "make_node_measure h cs 0 (0, 0, 0) = Some (retained h cs, sz', pad', vcc')"
      and p: "p = Ptr (length h)"
      and h': "h' = retained h cs @
         [\<lparr> symbol = symb, options = opts, ref_count = 1, padding = pad', size' = sz',
            lookahead_char = CHR 0x00, children = cs, visible_child_count = vcc',
            visible_children = vis \<rparr>]"
      by (rule make_node_SomeD)
    from m m' have same: "vcc' = vcc" by simp
    have new: "visible_child_count (node_at h' p) = vcc"
      using node_at_new [of "retained h cs"] by (simp add: h' p same)
    have old: "\<And>c. c \<in> set cs \<Longrightarrow>
         (if ts_tree_is_visible (node_at h c) then 1 else visible_child_count (node_at h c)) =
         (if ts_tree_is_visible (node_at h' c) then 1 else visible_child_count (node_at h' c))"
      using assms
      by (simp add: h' node_at_append retained_fields ts_tree_is_visible_def)
    have "map (\<lambda>c. if ts_tree_is_visible (node_at h c) then 1
                     else visible_child_count (node_at h c)) cs
        = map (\<lambda>c. if ts_tree_is_visible (node_at h' c) then 1
                     else visible_child_count (node_at h' c)) cs"
      by (rule map_cong) (simp_all add: old)
    then have "sum_list (map (\<lambda>c. if ts_tree_is_visible (node_at h c) then 1
                     else visible_child_count (node_at h c)) cs)
        = sum_list (map (\<lambda>c. if ts_tree_is_visible (node_at h' c) then 1
                     else visible_child_count (node_at h' c)) cs)"
      by (rule arg_cong)
    with count new show ?thesis by simp
  qed
  from m count node show ?thesis by blast
qed

lemma count_heap_eval:
  "count_heap =
     [\<lparr>symbol = 1, options = 0, ref_count = 2, padding = 0, size' = 1,
        lookahead_char = CHR 0x00, children = [], visible_child_count = 0,
        visible_children = []\<rparr>,
      \<lparr>symbol = 2, options = 0, ref_count = 2, padding = 0, size' = 1,
        lookahead_char = CHR 0x00, children = [], visible_child_count = 0,
        visible_children = []\<rparr>,
      \<lparr>symbol = 3, options = 1, ref_count = 1, padding = 0, size' = 2,
        lookahead_char = CHR 0x00, children = [Ptr 0, Ptr 1], visible_child_count = 2,
        visible_children = [\<lparr>tree = Ptr 0, offset = 0\<rparr>, \<lparr>tree = Ptr 1, offset = 1\<rparr>]\<rparr>,
      \<lparr>symbol = 4, options = 0, ref_count = 1, padding = 0, size' = 1,
        lookahead_char = CHR 0x00, children = [], visible_child_count = 0,
        visible_children = []\<rparr>]"
  by (simp add: count_heap_def ts_tree_make_leaf_def ts_tree_make_node_def
      make_node_options_def malloc_def ts_tree_is_visible_def ts_tree_is_wrapper_def
      TSTreeOptionsHidden_def TSTreeOptionsWrapper_def grandchild_entries_def)

theorem make_node_visible_count_witness:
  "valid count_heap (Ptr 2) \<and> valid count_heap (Ptr 3) \<and>
   \<not> ts_tree_is_visible (node_at count_heap (Ptr 2)) \<and>
   visible_child_count (node_at count_heap (Ptr 2)) = 2 \<and>
   ts_tree_is_visible (node_at count_heap (Ptr 3)) \<and>
   map_option (\<lambda>r. snd (snd (snd r)))
     (make_node_measure count_heap [Ptr 2, Ptr 3] 0 (0, 0, 0)) = Some (2 + 1) \<and>
   map_option (\<lambda>r. visible_child_count (node_at (fst r) (snd r)))
     (ts_tree_make_node count_heap 5 [Ptr 2, Ptr 3] False) = Some (2 + 1)"
proof -
  have v: "\<forall>c\<in>set [Ptr 2, Ptr 3]. valid count_heap c"
    by (simp add: count_heap_eval valid_def)
  have facts: "\<not> ts_tree_is_visible (node_at count_heap (Ptr 2))"
    "visible_child_count (node_at count_heap (Ptr 2)) = 2"
    "ts_tree_is_visible (node_at count_heap (Ptr 3))"
    by (simp_all add: count_heap_eval node_at_def ts_tree_is_visible_def
        TSTreeOptionsHidden_def)
  have mk: "ts_tree_make_node count_heap 5 [Ptr 2, Ptr 3] False \<noteq> None"
    by (simp add: count_heap_eval ts_tree_make_node_def make_node_options_def malloc_def
        ts_tree_is_visible_def ts_tree_is_wrapper_def TSTreeOptionsHidden_def
        TSTreeOptionsWrapper_def grandchild_entries_def)
  from make_node_visible_count [OF v, of 5 False] obtain h1 sz pad vcc where
    m: "make_node_measure count_heap [Ptr 2, Ptr 3] 0 (0, 0, 0) = Some (h1, sz, pad, vcc)"
    and c: "vcc = sum_list (map (\<lambda>c. if ts_tree_is_visible (node_at count_heap c) then 1
                          else visible_child_count (node_at count_heap c)) [Ptr 2, Ptr 3])"
    and n: "\<And>h' p. ts_tree_make_node count_heap 5 [Ptr 2, Ptr 3] False = Some (h', p) \<Longrightarrow>
              visible_child_count (node_at h' p) = vcc"
    by blast
  from c facts have vcc: "vcc = 2 + 1" by simp
  from mk obtain h' p where
    r: "ts_tree_make_node count_heap 5 [Ptr 2, Ptr 3] False = Some (h', p)"
    by auto
  from n [OF r] have "visible_child_count (node_at h' p) = 2 + 1" by (simp only: vcc)
  with v facts m vcc r show ?thesis
    by (simp add: valid_def del: make_node_measure.simps)
qed

text \<open>
  C10. For every symbol and every value of \<open>is_hidden\<close>, \<^verbatim>\<open>ts_tree_make_node\<close> with an
  empty child array returns a node with padding 0, size 0, visible-child count 0,
  \<open>ref_count\<close> 1 and no wrapper flag, and the node is hidden exactly when \<open>is_hidden\<close>
  is true.
\<close>

theorem make_node_no_children:
  "\<exists>node. ts_tree_make_node h symb [] is_hidden = Some (h @ [node], Ptr (length h)) \<and>
      padding node = 0 \<and> size' node = 0 \<and> visible_child_count node = 0 \<and>
      ref_count node = 1 \<and> \<not> ts_tree_is_wrapper node \<and>
      (\<not> ts_tree_is_visible node) = is_hidden \<and>
      children node = [] \<and> visible_children node = []"
  by (simp add: make_node_Nil ts_tree_is_wrapper_def ts_tree_is_visible_def
      TSTreeOptionsHidden_def TSTreeOptionsWrapper_def)

theorem make_node_no_children_witness:
  "ts_tree_make_node [] 7 [] True =
     Some ([\<lparr>symbol = 7, options = TSTreeOptionsHidden, ref_count = 1, padding = 0,
              size' = 0, lookahead_char = CHR 0x00, children = [],
              visible_child_count = 0, visible_children = []\<rparr>], Ptr 0)"
  using make_node_no_children [of "[]" 7 True]
  by (simp add: make_node_Nil)

text \<open>
  C3, as the code has it. In the scenario (leaf \<open>A\<close> of size 1 and padding 0, leaf \<open>B\<close> of
  size 2 and padding 1, hidden node \<open>W\<close> over \<open>B\<close>, root \<open>R\<close> over \<open>A\<close> and \<open>W\<close>) the root
  has padding 0, size 4 and visible-child count 2, and its array of visible children
  is \<open>(A, 0), (B, 2)\<close>: an offset is the distance from the start of the parent's
  content to the start of the child's content, so the padding of \<open>W\<close> counts. The
  spec states the second entry as \<open>(B, 1)\<close>.
\<close>

theorem scenario_root:
  "\<exists>h r. scenario_R = Some (h, r) \<and>
     padding (node_at h r) = 0 \<and> size' (node_at h r) = 4 \<and>
     visible_child_count (node_at h r) = 2 \<and>
     visible_children (node_at h r) =
       [\<lparr> tree = snd scenario_A, offset = 0 \<rparr>, \<lparr> tree = snd scenario_B, offset = 2 \<rparr>]"
  by (simp add: scenario_R_eval scenario_A_eval scenario_B_eval node_at_def)

theorem scenario_root_counterexample:
  "scenario_R \<noteq> None \<and>
   visible_children (node_at (fst (the scenario_R)) (snd (the scenario_R))) \<noteq>
     [\<lparr> tree = snd scenario_A, offset = 0 \<rparr>, \<lparr> tree = snd scenario_B, offset = 1 \<rparr>]"
  by (simp add: scenario_R_eval scenario_A_eval scenario_B_eval node_at_def)

text \<open>
  C4, as the code has it. A node built from exactly one child that is visible or a
  wrapper is hidden and a wrapper, whatever \<open>is_hidden\<close> is; when the child is
  visible, the node's array of visible children is the one entry for that child
  with offset 0. The offset is 0 and not the child's padding, because the second
  loop adds a child's padding to the offset only for \<open>i > 0\<close>; the counterexample is
  the node \<open>W\<close> of the scenario, whose child has padding 1.
\<close>

theorem make_node_single_child:
  assumes "ts_tree_make_node h symb [c] is_hidden = Some (h', p)"
    and "ts_tree_is_visible (node_at h c) \<or> ts_tree_is_wrapper (node_at h c)"
  shows "\<not> ts_tree_is_visible (node_at h' p) \<and> ts_tree_is_wrapper (node_at h' p) \<and>
         (ts_tree_is_visible (node_at h c) \<longrightarrow>
            visible_children (node_at h' p) = [\<lparr> tree = c, offset = 0 \<rparr>])"
proof -
  from assms(1) obtain sz pad vcc opts vis off where
    o: "make_node_options (retained h [c]) [c] is_hidden = Some opts"
    and f: "make_node_flatten (retained h [c]) [c] 0 ([], 0) = Some (vis, off)"
    and p: "p = Ptr (length h)"
    and h': "h' = retained h [c] @
       [\<lparr> symbol = symb, options = opts, ref_count = 1, padding = pad, size' = sz,
          lookahead_char = CHR 0x00, children = [c], visible_child_count = vcc,
          visible_children = vis \<rparr>]"
    and v: "\<forall>c\<in>set [c]. valid h c"
    by (rule make_node_SomeD)
  have vc: "valid h c" using v by simp
  have d: "deref (retained h [c]) c = Some (node_at (retained h [c]) c)"
    using vc by (simp add: deref_valid)
  have new: "node_at h' p = \<lparr> symbol = symb, options = opts, ref_count = 1, padding = pad,
          size' = sz, lookahead_char = CHR 0x00, children = [c], visible_child_count = vcc,
          visible_children = vis \<rparr>"
    using node_at_new [of "retained h [c]"] by (simp add: h' p)
  have opts: "opts = (if is_hidden then 0 OR TSTreeOptionsHidden else 0) OR
       (TSTreeOptionsWrapper OR TSTreeOptionsHidden)"
    using o assms(2) vc
    by (simp add: make_node_options_def d visible_retained wrapper_retained)
  have flags: "\<not> ts_tree_is_visible (node_at h' p) \<and> ts_tree_is_wrapper (node_at h' p)"
    using wrapper_options [where t = "node_at h' p" and b = is_hidden]
    by (simp add: new opts)
  have entries: "visible_children (node_at h' p) = [\<lparr> tree = c, offset = 0 \<rparr>]"
    if "ts_tree_is_visible (node_at h c)"
    using f that vc by (auto simp: d visible_retained new)
  show ?thesis using flags entries by simp
qed

theorem make_node_single_child_witness:
  "ts_tree_make_node (fst scenario_B) 3 [Ptr 1] True = Some (fst (the scenario_W), Ptr 2) \<and>
   ts_tree_is_visible (node_at (fst scenario_B) (Ptr 1)) \<and>
   \<not> ts_tree_is_visible (node_at (fst (the scenario_W)) (Ptr 2)) \<and>
   ts_tree_is_wrapper (node_at (fst (the scenario_W)) (Ptr 2)) \<and>
   visible_children (node_at (fst (the scenario_W)) (Ptr 2)) = [\<lparr> tree = Ptr 1, offset = 0 \<rparr>]"
proof -
  have mk: "ts_tree_make_node (fst scenario_B) 3 [Ptr 1] True =
              Some (fst (the scenario_W), Ptr 2)"
    using scenario_W_eval by (simp add: scenario_W_def scenario_B_eval)
  have vis: "ts_tree_is_visible (node_at (fst scenario_B) (Ptr 1))"
    by (simp add: scenario_B_eval node_at_def ts_tree_is_visible_def)
  from make_node_single_child [OF mk] vis show ?thesis
    using mk by simp
qed

theorem make_node_single_child_counterexample:
  "scenario_W = ts_tree_make_node (fst scenario_B) 3 [snd scenario_B] True \<and>
   ts_tree_is_visible (node_at (fst scenario_B) (snd scenario_B)) \<and>
   map offset (visible_children (node_at (fst (the scenario_W)) (snd (the scenario_W)))) = [0] \<and>
   padding (node_at (fst (the scenario_W)) (snd scenario_B)) = 1 \<and>
   offset (hd (visible_children (node_at (fst (the scenario_W)) (snd (the scenario_W))))) \<noteq>
     padding (node_at (fst (the scenario_W)) (snd scenario_B))"
  by (simp add: scenario_W_def [symmetric])
     (simp add: scenario_W_eval scenario_B_eval node_at_def ts_tree_is_visible_def)

text \<open>
  C6, as the code has it. After a successful call every struct that existed before
  has all its fields unchanged except \<open>ref_count\<close>, which has grown by the number of
  slots of the child array that point to the struct (in \<^verbatim>\<open>size_t\<close> arithmetic): by
  1 for a child that stands in one slot, by 0 for a struct that is no child. The new
  node is the only struct added. A child that stands in two slots is retained
  twice, which is the counterexample to "plus 1".
\<close>

theorem make_node_ref_counts:
  assumes "ts_tree_make_node h symb cs is_hidden = Some (h', p)"
  shows "p = Ptr (length h) \<and> length h' = length h + 1 \<and>
         (\<forall>c\<in>set cs. valid h c) \<and>
         (\<forall>q. valid h q \<longrightarrow>
            node_at h' q =
              (node_at h q)\<lparr>ref_count := ref_count (node_at h q) + of_nat (count_list cs q)\<rparr>)"
proof -
  from assms(1) obtain sz pad vcc opts vis off where
    p: "p = Ptr (length h)"
    and h': "h' = retained h cs @
       [\<lparr> symbol = symb, options = opts, ref_count = 1, padding = pad, size' = sz,
          lookahead_char = CHR 0x00, children = cs, visible_child_count = vcc,
          visible_children = vis \<rparr>]"
    and v: "\<forall>c\<in>set cs. valid h c"
    by (rule make_node_SomeD)
  show ?thesis
    using p v by (simp add: h' node_at_append node_at_retained)
qed

theorem make_node_ref_counts_witness:
  "ts_tree_make_node (fst (the scenario_W)) 4 [Ptr 0, Ptr 2] False =
     Some (fst (the scenario_R), Ptr 3) \<and>
   valid (fst (the scenario_W)) (Ptr 0) \<and> valid (fst (the scenario_W)) (Ptr 1) \<and>
   valid (fst (the scenario_W)) (Ptr 2) \<and>
   node_at (fst (the scenario_R)) (Ptr 0) =
     (node_at (fst (the scenario_W)) (Ptr 0))\<lparr>ref_count := 1 + 1\<rparr> \<and>
   node_at (fst (the scenario_R)) (Ptr 1) = node_at (fst (the scenario_W)) (Ptr 1) \<and>
   node_at (fst (the scenario_R)) (Ptr 2) =
     (node_at (fst (the scenario_W)) (Ptr 2))\<lparr>ref_count := 1 + 1\<rparr>"
proof -
  have mk: "ts_tree_make_node (fst (the scenario_W)) 4 [Ptr 0, Ptr 2] False =
              Some (fst (the scenario_R), Ptr 3)"
    by (simp add: scenario_R_call) (simp add: scenario_R_eval)
  from make_node_ref_counts [OF mk] show ?thesis
    using mk by (simp add: scenario_W_eval scenario_R_eval valid_def node_at_def)
qed

theorem make_node_ref_counts_counterexample:
  "ts_tree_make_node (fst scenario_A) 5 [Ptr 0, Ptr 0] False =
     Some ([\<lparr>symbol = 1, options = 0, ref_count = 3, padding = 0, size' = 1,
              lookahead_char = CHR 0x00, children = [], visible_child_count = 0,
              visible_children = []\<rparr>,
            \<lparr>symbol = 5, options = 0, ref_count = 1, padding = 0, size' = 2,
              lookahead_char = CHR 0x00, children = [Ptr 0, Ptr 0], visible_child_count = 2,
              visible_children = [\<lparr>tree = Ptr 0, offset = 0\<rparr>, \<lparr>tree = Ptr 0, offset = 1\<rparr>]\<rparr>],
           Ptr 1) \<and>
   ref_count (node_at (fst scenario_A) (Ptr 0)) = 1 \<and>
   ref_count (node_at (fst (the (ts_tree_make_node (fst scenario_A) 5 [Ptr 0, Ptr 0] False)))
                (Ptr 0)) \<noteq>
     ref_count (node_at (fst scenario_A) (Ptr 0)) + 1"
  by (simp add: scenario_A_eval ts_tree_make_node_def make_node_options_def
      malloc_def ts_tree_is_visible_def ts_tree_is_wrapper_def TSTreeOptionsHidden_def
      TSTreeOptionsWrapper_def grandchild_entries_def node_at_def)

section \<open>Claims about \<^verbatim>\<open>ts_tree_equals\<close>\<close>

lemma equals_children_True:
  "equals_children eq xs = Some True \<longleftrightarrow> (\<forall>x\<in>set xs. eq x = Some True)"
  by (induction xs) (auto simp: bind_eq_Some_conv)

lemma equals_children_total:
  "(\<forall>x\<in>set xs. \<exists>r. eq x = Some r) \<Longrightarrow> \<exists>r. equals_children eq xs = Some r"
proof (induction xs)
  case Nil
  show ?case by auto
next
  case (Cons x xs)
  from Cons.prems obtain r where r: "eq x = Some r" by auto
  from Cons obtain r' where r': "equals_children eq xs = Some r'" by auto
  show ?case
  proof (cases r)
    case True
    then show ?thesis by (simp add: r r')
  next
    case False
    then show ?thesis by (auto simp: r)
  qed
qed

lemma equals_children_transfer:
  "equals_children f xs = Some y \<Longrightarrow> (\<And>x r. x \<in> set xs \<Longrightarrow> f x = Some r \<Longrightarrow> g x = Some r) \<Longrightarrow>
   equals_children g xs = Some y"
  by (induction xs) (auto simp: bind_eq_Some_conv split: if_splits)

lemma heap_ordered_children:
  assumes "heap_ordered h" "a < length h" "c \<in> set (children (h ! a))"
  shows "\<exists>b. c = Ptr b \<and> b < a"
proof -
  have mem: "(a, h ! a) \<in> set (zip [0..<length h] h)"
    using assms(2) by (auto simp: in_set_zip intro!: exI [of _ a])
  have "\<forall>x\<in>set (zip [0..<length h] h).
          list_all (points_below (fst x)) (children (snd x))"
    using assms(1) by (simp add: heap_ordered_def list_all_iff case_prod_beta)
  from bspec [OF this mem]
  have "list_all (points_below a) (children (h ! a))"
    by simp
  with assms(3) have "points_below a c"
    by (simp add: list_all_iff)
  then show ?thesis by (cases c) simp_all
qed

lemma ts_tree_equals_terminates:
  assumes "heap_ordered h"
  shows "a < length h \<Longrightarrow> b < length h \<Longrightarrow> \<exists>r. ts_tree_equals h (Ptr a) (Ptr b) = Some r"
proof (induction a arbitrary: b rule: less_induct)
  case (less a)
  let ?n1 = "h ! a" and ?n2 = "h ! b"
  have kids: "\<exists>r. ts_tree_equals h (fst x) (snd x) = Some r"
    if "x \<in> set (zip (children ?n1) (children ?n2))" for x
  proof -
    obtain c1 c2 where x: "x = (c1, c2)" by (cases x)
    from that x have 1: "c1 \<in> set (children ?n1)" by (auto dest: set_zip_leftD)
    from that x have 2: "c2 \<in> set (children ?n2)" by (auto dest: set_zip_rightD)
    from heap_ordered_children [OF assms less.prems(1) 1] obtain a' where
      a': "c1 = Ptr a'" "a' < a" by auto
    from heap_ordered_children [OF assms less.prems(2) 2] obtain b' where
      b': "c2 = Ptr b'" "b' < b" by auto
    have "a' < length h" "b' < length h" using a' b' less.prems by simp_all
    from less.IH [OF a'(2) this] show ?thesis by (simp add: x a' b')
  qed
  from equals_children_total [of "zip (children ?n1) (children ?n2)"
         "\<lambda>c. ts_tree_equals h (fst c) (snd c)"] kids
  obtain r where r: "equals_children (\<lambda>c. ts_tree_equals h (fst c) (snd c))
                       (zip (children ?n1) (children ?n2)) = Some r"
    by blast
  show ?case
    by (subst ts_tree_equals.simps) (auto simp: less.prems r)
qed

lemma deref_equality_fields:
  assumes "map equality_fields h = map equality_fields h'" and "deref h a = Some n"
  shows "\<exists>n'. deref h' a = Some n' \<and> equality_fields n' = equality_fields n"
proof (cases a)
  case NULL
  with assms show ?thesis by simp
next
  case (Ptr x)
  from assms(1) have len: "length h' = length h"
    by (metis length_map)
  from assms(2) Ptr have x: "x < length h" "n = h ! x"
    by (auto split: if_splits)
  from assms(1) x(1) len have "equality_fields (h' ! x) = equality_fields (h ! x)"
    by (metis nth_map)
  with x len Ptr show ?thesis by simp
qed

lemma ts_tree_equals_fields_le:
  "ts_tree_equals h a b = Some r \<Longrightarrow>
   \<forall>h'. map equality_fields h = map equality_fields h' \<longrightarrow> ts_tree_equals h' a b = Some r"
proof (induction rule: ts_tree_equals.raw_induct [rotated, consumes 1])
  case (1 eq h a b r)
  show ?case
  proof (intro allI impI)
    fix h' assume same: "map equality_fields h = map equality_fields h'"
    from 1(2) obtain n1 n2 where d: "deref h a = Some n1" "deref h b = Some n2"
      by (auto split: option.splits)
    from deref_equality_fields [OF same d(1)] obtain n1' where
      n1': "deref h' a = Some n1'" "equality_fields n1' = equality_fields n1" by auto
    from deref_equality_fields [OF same d(2)] obtain n2' where
      n2': "deref h' b = Some n2'" "equality_fields n2' = equality_fields n2" by auto
    have f1: "symbol n1' = symbol n1" "lookahead_char n1' = lookahead_char n1"
      "children n1' = children n1" "visible_child_count n1' = visible_child_count n1"
      using n1'(2) by (simp_all add: equality_fields_def)
    have f2: "symbol n2' = symbol n2" "lookahead_char n2' = lookahead_char n2"
      "children n2' = children n2" "visible_child_count n2' = visible_child_count n2"
      using n2'(2) by (simp_all add: equality_fields_def)
    have loop: "equals_children (\<lambda>c. ts_tree_equals h' (fst c) (snd c)) zs = Some r"
      if "equals_children (\<lambda>c. eq h (fst c) (snd c)) zs = Some r" for zs
    proof (rule equals_children_transfer [OF that])
      fix x y assume "eq h (fst x) (snd x) = Some y"
      from 1(1) [OF this] same show "ts_tree_equals h' (fst x) (snd x) = Some y" by blast
    qed
    from 1(2) have body:
      "(if symbol n1 \<noteq> symbol n2 then Some False
        else if lookahead_char n1 \<noteq> lookahead_char n2 then Some False
        else if child_count n1 \<noteq> child_count n2 then Some False
        else if visible_child_count n1 \<noteq> visible_child_count n2 then Some False
        else equals_children (\<lambda>c. eq h (fst c) (snd c))
               (zip (children n1) (children n2))) = Some r"
      by (simp add: d)
    have body': "(if symbol n1 \<noteq> symbol n2 then Some False
        else if lookahead_char n1 \<noteq> lookahead_char n2 then Some False
        else if child_count n1 \<noteq> child_count n2 then Some False
        else if visible_child_count n1 \<noteq> visible_child_count n2 then Some False
        else equals_children (\<lambda>c. ts_tree_equals h' (fst c) (snd c))
               (zip (children n1) (children n2))) = Some r"
      using body loop by (simp split: if_splits)
    have unfolded: "ts_tree_equals h' a b =
       (if symbol n1 \<noteq> symbol n2 then Some False
        else if lookahead_char n1 \<noteq> lookahead_char n2 then Some False
        else if child_count n1 \<noteq> child_count n2 then Some False
        else if visible_child_count n1 \<noteq> visible_child_count n2 then Some False
        else equals_children (\<lambda>c. ts_tree_equals h' (fst c) (snd c))
               (zip (children n1) (children n2)))"
      by (subst ts_tree_equals.simps) (simp add: n1'(1) n2'(1) f1 f2)
    show "ts_tree_equals h' a b = Some r"
      unfolding unfolded by (rule body')
  qed
qed

lemma ts_tree_equals_fields:
  assumes "map equality_fields h = map equality_fields h'"
  shows "ts_tree_equals h' a b = ts_tree_equals h a b"
proof (cases "ts_tree_equals h a b")
  case (Some r)
  from ts_tree_equals_fields_le [OF Some, rule_format, OF assms] Some
  show ?thesis by simp
next
  case None
  show ?thesis
  proof (cases "ts_tree_equals h' a b")
    case None': None
    with None show ?thesis by simp
  next
    case (Some r)
    from ts_tree_equals_fields_le [OF Some, rule_format, OF assms [symmetric]] None
    show ?thesis by simp
  qed
qed

text \<open>
  C7. For two valid nodes, \<^verbatim>\<open>ts_tree_equals\<close> returns true exactly when they have the
  same symbol, the same lookahead, the same child count and the same visible-child
  count, and the calls on their children, pairwise in order, return true. Size,
  padding and the option flags do not occur in the condition (and
  \<open>ts_tree_equals_fields\<close> shows that the result does not depend on them at any
  depth): the witness is a pair of leaves that differ in all three and are equal.
\<close>

theorem ts_tree_equals_iff:
  assumes "deref h a = Some n1" and "deref h b = Some n2"
  shows "ts_tree_equals h a b = Some True \<longleftrightarrow>
           symbol n1 = symbol n2 \<and> lookahead_char n1 = lookahead_char n2 \<and>
           child_count n1 = child_count n2 \<and>
           visible_child_count n1 = visible_child_count n2 \<and>
           (\<forall>i<child_count n1.
              ts_tree_equals h (children n1 ! i) (children n2 ! i) = Some True)"
proof -
  have pairs: "(\<forall>x\<in>set (zip (children n1) (children n2)).
                  ts_tree_equals h (fst x) (snd x) = Some True) \<longleftrightarrow>
               (\<forall>i<child_count n1.
                  ts_tree_equals h (children n1 ! i) (children n2 ! i) = Some True)"
    if "child_count n1 = child_count n2"
    using that by (auto simp: set_zip)
  show ?thesis
    by (subst ts_tree_equals.simps) (auto simp: assms equals_children_True pairs)
qed

theorem ts_tree_equals_iff_witness:
  "deref two_leaves (Ptr 0) =
     Some \<lparr>symbol = 7, options = 0, ref_count = 1, padding = 0, size' = 1,
           lookahead_char = CHR 0x00, children = [], visible_child_count = 0,
           visible_children = []\<rparr> \<and>
   deref two_leaves (Ptr 1) =
     Some \<lparr>symbol = 7, options = 1, ref_count = 1, padding = 3, size' = 5,
           lookahead_char = CHR 0x00, children = [], visible_child_count = 0,
           visible_children = []\<rparr> \<and>
   ts_tree_equals two_leaves (Ptr 0) (Ptr 1) = Some True"
proof -
  have d0: "deref two_leaves (Ptr 0) =
     Some \<lparr>symbol = 7, options = 0, ref_count = 1, padding = 0, size' = 1,
           lookahead_char = CHR 0x00, children = [], visible_child_count = 0,
           visible_children = []\<rparr>"
    by (simp add: two_leaves_def ts_tree_make_leaf_def malloc_def)
  have d1: "deref two_leaves (Ptr 1) =
     Some \<lparr>symbol = 7, options = 1, ref_count = 1, padding = 3, size' = 5,
           lookahead_char = CHR 0x00, children = [], visible_child_count = 0,
           visible_children = []\<rparr>"
    by (simp add: two_leaves_def ts_tree_make_leaf_def malloc_def TSTreeOptionsHidden_def)
  from ts_tree_equals_iff [OF d0 d1] show ?thesis
    using d0 d1 by simp
qed

section \<open>Claims about \<^verbatim>\<open>ts_tree_string\<close>\<close>

subsection \<open>Stores into the buffer\<close>

lemma length_written:
  "s + length txt + 1 \<le> length buf \<Longrightarrow> length (written buf s txt) = length buf"
  by (auto simp: written_def)

lemma written_Nil [simp]: "written buf s [] = buf"
  by (simp add: written_def)

lemma written_compose:
  assumes "s + length (pre @ p) + 1 \<le> length buf"
  shows "written (written buf s pre) (s + length pre) p = written buf s (pre @ p)"
proof (cases "p = []")
  case True
  then show ?thesis by simp
next
  case p: False
  show ?thesis
  proof (cases "pre = []")
    case True
    then show ?thesis by simp
  next
    case False
    with p assms show ?thesis
      by (simp add: written_def min_def ac_simps)
  qed
qed

lemma snprintf_written:
  assumes "0 < limit" "length p < limit" "at + length p + 1 \<le> length buf" "p \<noteq> []"
  shows "snprintf buf at limit p = Some (written buf at p, length p)"
  using assms by (simp add: snprintf_def written_def)

lemma fits_prefix: "fits limit buf s (a @ b) \<Longrightarrow> fits limit buf s a"
  by (auto simp: fits_def)

lemma fits_sub:
  "fits limit buf s (pre @ p @ post) \<Longrightarrow> fits limit (buffer_after limit buf s pre) (s + length pre) p"
  by (auto simp: fits_def buffer_after_def length_written)

lemma fits_sub0:
  "fits limit buf s (pre @ p @ post) \<Longrightarrow>
   fits limit (buffer_after limit buf s pre) (if 0 < limit then s + length pre else s0) p"
  by (auto simp: fits_def buffer_after_def length_written)

lemma buffer_after_compose:
  "fits limit buf s (pre @ p) \<Longrightarrow>
   buffer_after limit (buffer_after limit buf s pre) (if 0 < limit then s + length pre else s0) p =
     buffer_after limit buf s (pre @ p)"
  by (auto simp: fits_def buffer_after_def written_compose)

lemma emit_buffer_after:
  assumes "fits limit buf s (pre @ p)" "p \<noteq> []"
  shows "emit limit s p (buffer_after limit buf s pre, s + length pre) =
           Some (buffer_after limit buf s (pre @ p), s + length (pre @ p))"
proof (cases "limit = 0")
  case True
  then show ?thesis by (simp add: emit_def snprintf_def buffer_after_def)
next
  case False
  with assms(1) have b: "length (pre @ p) < limit" "s + length (pre @ p) + 1 \<le> length buf"
    by (auto simp: fits_def)
  have len: "length (written buf s pre) = length buf"
    using b(2) by (simp add: length_written)
  have "snprintf (written buf s pre) (s + length pre) limit p =
          Some (written (written buf s pre) (s + length pre) p, length p)"
    using False b assms(2) by (intro snprintf_written) (simp_all add: len)
  then show ?thesis
    using False b(2) by (simp add: emit_def buffer_after_def written_compose)
qed

subsection \<open>The writer stores the rendering\<close>

lemma buffer_after_Nil [simp]: "buffer_after limit buf s [] = buf"
  by (simp add: buffer_after_def)

lemma snprintf_buffer_after:
  assumes "fits limit buf s p" "p \<noteq> []"
  shows "snprintf buf s limit p = Some (buffer_after limit buf s p, length p)"
proof (cases "limit = 0")
  case True
  then show ?thesis by (simp add: snprintf_def buffer_after_def)
next
  case False
  with assms show ?thesis
    by (simp add: snprintf_written fits_def buffer_after_def)
qed

lemma emit_first:
  assumes "fits limit buf s p" "p \<noteq> []"
  shows "emit limit s p (buf, s) = Some (buffer_after limit buf s p, s + length p)"
  using emit_buffer_after [of limit buf s "[]" p] assms by simp

lemma write_children_render:
  assumes "render_children f cs = Some body"
    and "\<And>c t b at. f c = Some t \<Longrightarrow> fits limit b at t \<Longrightarrow>
           rec c b at = Some (buffer_after limit b at t, length t)"
    and "fits limit buf s (pre @ body)"
  shows "write_children rec limit s cs (buffer_after limit buf s pre, s + length pre) =
           Some (buffer_after limit buf s (pre @ body), s + length (pre @ body))"
  using assms(1,3)
proof (induction cs arbitrary: pre body)
  case Nil
  then show ?case by simp
next
  case (Cons c cs)
  from Cons.prems(1) obtain t ts where
    t: "f c = Some t" and ts: "render_children f cs = Some ts" and body: "body = t @ ts"
    by (auto simp: bind_eq_Some_conv)
  have fit: "fits limit buf s (pre @ t @ ts)" using Cons.prems(2) body by simp
  have fit1: "fits limit buf s (pre @ t)" using fits_prefix [of limit buf s "pre @ t" ts] fit by simp
  let ?at = "if 0 < limit then s + length pre else s"
  have call: "rec c (buffer_after limit buf s pre) ?at =
                Some (buffer_after limit buf s (pre @ t), length t)"
    using assms(2) [OF t fits_sub0 [OF fit, of s]] buffer_after_compose [OF fit1, of s]
    by simp
  have rest: "write_children rec limit s cs
                (buffer_after limit buf s ((pre @ t)), s + length (pre @ t)) =
              Some (buffer_after limit buf s ((pre @ t) @ ts), s + length ((pre @ t) @ ts))"
    using Cons.IH [OF ts, of "pre @ t"] fit by simp
  show ?case
  proof (cases "0 < limit")
    case True
    with call rest show ?thesis by (simp add: body add.assoc)
  next
    case False
    with call rest show ?thesis by (simp add: body add.assoc)
  qed
qed

lemma tree_write_to_string_render:
  "rendered h symbol_names is_root node = Some txt \<Longrightarrow>
   \<forall>limit buf s. fits limit buf s txt \<longrightarrow>
      tree_write_to_string h symbol_names limit is_root node buf s =
        Some (buffer_after limit buf s txt, length txt)"
proof (induction rule: rendered.raw_induct [rotated, consumes 1])
  case (1 render' h symbol_names is_root node res)
  show ?case
  proof (intro allI impI)
    fix limit buf s
    assume fit: "fits limit buf s res"
    note IH = 1(1) [rule_format]
    show "tree_write_to_string h symbol_names limit is_root node buf s =
            Some (buffer_after limit buf s res, length res)"
    proof (cases "node = NULL")
      case True
      with 1(2) have res: "res = ''(NULL)''" by simp
      show ?thesis
        using snprintf_buffer_after [OF fit] True
        by (subst tree_write_to_string.simps) (simp add: res)
    next
      case nonnull: False
      with 1(2) obtain t where d: "deref h node = Some t"
        by (auto split: option.splits)
      let ?rec = "\<lambda>child b at. tree_write_to_string h symbol_names limit False child b at"
      have rec: "?rec c b at = Some (buffer_after limit b at u, length u)"
        if "render' h symbol_names False c = Some u" "fits limit b at u" for c u b at
        using IH [OF that(1)] that(2) by simp
      show ?thesis
      proof (cases "ts_tree_is_visible t \<or> is_root")
        case hidden: False
        with 1(2) nonnull d have body:
          "render_children (\<lambda>c. render' h symbol_names False c) (children t) = Some res"
          by simp
        have "write_children ?rec limit s (children t) (buffer_after limit buf s [], s + length ([]::string)) =
                Some (buffer_after limit buf s ([] @ res), s + length ([] @ res))"
          by (rule write_children_render [OF body rec]) (simp_all add: fit)
        then have kids: "write_children ?rec limit s (children t) (buf, s) =
                Some (buffer_after limit buf s res, s + length res)"
          by simp
        show ?thesis
          using hidden nonnull kids
          by (subst tree_write_to_string.simps) (simp add: d)
      next
        case visible: True
        define sp where "sp = (if is_root then [] else '' '')"
        from 1(2) nonnull d visible obtain label body where
          label: "(if symbol t = ts_builtin_sym_error
                   then Some (''ERROR '' @ lookahead_text (lookahead_char t))
                   else symbol_name symbol_names (symbol t)) = Some label"
          and body: "render_children (\<lambda>c. render' h symbol_names False c) (children t) = Some body"
          and res: "res = sp @ ''('' @ label @ body @ '')''"
          by (auto simp: bind_eq_Some_conv sp_def)
        have fit_sp: "fits limit buf s sp"
          using fits_prefix [of limit buf s sp "''('' @ label @ body @ '')''"] fit res by simp
        have fit_head: "fits limit buf s (sp @ ''('' @ label)"
          using fits_prefix [of limit buf s "sp @ ''('' @ label" "body @ '')''"] fit res by simp
        have fit_body: "fits limit buf s ((sp @ ''('' @ label) @ body)"
          using fits_prefix [of limit buf s "(sp @ ''('' @ label) @ body" "'')''"] fit res by simp
        have st1: "(if (ts_tree_is_visible t \<or> is_root) \<and> \<not> is_root
                    then emit limit s '' '' (buf, s) else Some (buf, s)) =
                   Some (buffer_after limit buf s sp, s + length sp)"
          using visible fit_sp emit_first [of limit buf s "'' ''"]
          by (auto simp: sp_def)
        have st2: "(if symbol t = ts_builtin_sym_error then
                      emit limit s ''(ERROR '' (buffer_after limit buf s sp, s + length sp) \<bind>
                        write_lookahead_to_string limit s (lookahead_char t)
                    else symbol_name symbol_names (symbol t) \<bind>
                        (\<lambda>name. emit limit s (''('' @ name) (buffer_after limit buf s sp, s + length sp))) =
                   Some (buffer_after limit buf s (sp @ ''('' @ label), s + length (sp @ ''('' @ label))"
        proof (cases "symbol t = ts_builtin_sym_error")
          case True
          with label have l: "label = ''ERROR '' @ lookahead_text (lookahead_char t)" by simp
          have f1: "fits limit buf s (sp @ ''(ERROR '')"
            using fits_prefix [of limit buf s "sp @ ''(ERROR ''" "lookahead_text (lookahead_char t)"]
              fit_head l by simp
          have e1: "emit limit s ''(ERROR '' (buffer_after limit buf s sp, s + length sp) =
                      Some (buffer_after limit buf s (sp @ ''(ERROR ''), s + length (sp @ ''(ERROR ''))"
            by (rule emit_buffer_after [OF f1]) simp
          have f2: "fits limit buf s ((sp @ ''(ERROR '') @ lookahead_text (lookahead_char t))"
            using fit_head l by simp
          have e2: "write_lookahead_to_string limit s (lookahead_char t)
                      (buffer_after limit buf s (sp @ ''(ERROR ''), s + length (sp @ ''(ERROR '')) =
                    Some (buffer_after limit buf s ((sp @ ''(ERROR '') @ lookahead_text (lookahead_char t)),
                          s + length ((sp @ ''(ERROR '') @ lookahead_text (lookahead_char t)))"
            using emit_buffer_after [OF f2]
            by (auto simp: write_lookahead_to_string_def lookahead_text_def)
          show ?thesis using True e1 e2 by (simp add: l)
        next
          case False
          with label have l: "symbol_name symbol_names (symbol t) = Some label" by simp
          have "emit limit s (''('' @ label) (buffer_after limit buf s sp, s + length sp) =
                   Some (buffer_after limit buf s (sp @ ''('' @ label), s + length (sp @ ''('' @ label))"
            by (rule emit_buffer_after [OF fit_head]) simp
          then show ?thesis using False l by simp
        qed
        have st3: "write_children ?rec limit s (children t)
                     (buffer_after limit buf s (sp @ ''('' @ label), s + length (sp @ ''('' @ label)) =
                   Some (buffer_after limit buf s ((sp @ ''('' @ label) @ body),
                         s + length ((sp @ ''('' @ label) @ body))"
          by (rule write_children_render [OF body rec fit_body])
        have fit_all: "fits limit buf s (((sp @ ''('' @ label) @ body) @ '')'')"
          using fit res by simp
        have st4: "emit limit s '')''
                     (buffer_after limit buf s ((sp @ ''('' @ label) @ body),
                      s + length ((sp @ ''('' @ label) @ body)) =
                   Some (buffer_after limit buf s res, s + length res)"
          using emit_buffer_after [OF fit_all] res by simp
        show ?thesis
          using visible nonnull st1 st2 st3 st4
          by (subst tree_write_to_string.simps) (simp add: d)
      qed
    qed
  qed
qed

lemma rendered_root_nonempty:
  "rendered h symbol_names True node = Some res \<Longrightarrow> res \<noteq> []"
  by (subst (asm) rendered.simps)
     (auto simp: bind_eq_Some_conv split: if_splits option.splits)

lemma ts_tree_string_rendered:
  assumes "rendered h symbol_names True node = Some res"
  shows "ts_tree_string h symbol_names uninit node = Some (res @ [CHR 0x00])"
proof -
  note w = tree_write_to_string_render [OF assms, rule_format]
  have ne: "res \<noteq> []" using assms by (rule rendered_root_nonempty)
  have p1: "tree_write_to_string h symbol_names 0 True node [CHR 0x00] 0 =
              Some ([CHR 0x00], length res)"
    using w [of 0 "[CHR 0x00]" 0] by (simp add: fits_def buffer_after_def)
  let ?buf = "map uninit [0..<length res + 1]"
  have p2: "tree_write_to_string h symbol_names (length res + 1) True node ?buf 0 =
              Some (res @ [CHR 0x00], length res)"
    using w [of "length res + 1" ?buf 0] ne
    by (simp add: fits_def buffer_after_def written_def)
  show ?thesis
    using p1 p2 by (simp add: ts_tree_string_def)
qed

lemma rendered_error_leaf:
  assumes "deref h node = Some t" "symbol t = ts_builtin_sym_error" "children t = []"
  shows "rendered h symbol_names True node =
           Some (''(ERROR '' @ lookahead_text (lookahead_char t) @ '')'')"
proof -
  have "node \<noteq> NULL" using assms(1) by auto
  then show ?thesis
    by (subst rendered.simps) (simp add: assms)
qed

lemma make_error_node:
  "ts_tree_make_error h sz pad c =
     (h @ [\<lparr>symbol = ts_builtin_sym_error, options = 0, ref_count = 1, padding = pad,
             size' = sz, lookahead_char = c, children = [], visible_child_count = 0,
             visible_children = []\<rparr>], Ptr (length h))"
  by (simp add: ts_tree_make_error_def ts_tree_make_leaf_def malloc_def)

lemma plain_tree_eval:
  "plain_tree =
     Some ([\<lparr>symbol = 2, options = 0, ref_count = 2, padding = 0, size' = 1,
         lookahead_char = CHR 0x00, children = [], visible_child_count = 0,
         visible_children = []\<rparr>,
       \<lparr>symbol = 3, options = 0, ref_count = 2, padding = 1, size' = 1,
         lookahead_char = CHR 0x00, children = [], visible_child_count = 0,
         visible_children = []\<rparr>,
       \<lparr>symbol = 1, options = 0, ref_count = 1, padding = 0, size' = 3,
         lookahead_char = CHR 0x00, children = [Ptr 0, Ptr 1], visible_child_count = 2,
         visible_children = [\<lparr>tree = Ptr 0, offset = 0\<rparr>, \<lparr>tree = Ptr 1, offset = 2\<rparr>]\<rparr>],
       Ptr 2)"
  by (simp add: plain_tree_def ts_tree_make_leaf_def ts_tree_make_node_def
      make_node_options_def malloc_def ts_tree_is_visible_def ts_tree_is_wrapper_def
      TSTreeOptionsHidden_def TSTreeOptionsWrapper_def grandchild_entries_def)

lemma wrapped_tree_eval:
  "wrapped_tree =
     Some ([\<lparr>symbol = 2, options = 0, ref_count = 2, padding = 0, size' = 1,
         lookahead_char = CHR 0x00, children = [], visible_child_count = 0,
         visible_children = []\<rparr>,
       \<lparr>symbol = 3, options = 0, ref_count = 2, padding = 1, size' = 1,
         lookahead_char = CHR 0x00, children = [], visible_child_count = 0,
         visible_children = []\<rparr>,
       \<lparr>symbol = 9, options = 5, ref_count = 2, padding = 0, size' = 1,
         lookahead_char = CHR 0x00, children = [Ptr 0], visible_child_count = 1,
         visible_children = [\<lparr>tree = Ptr 0, offset = 0\<rparr>]\<rparr>,
       \<lparr>symbol = 1, options = 0, ref_count = 1, padding = 0, size' = 3,
         lookahead_char = CHR 0x00, children = [Ptr 2, Ptr 1], visible_child_count = 2,
         visible_children = [\<lparr>tree = Ptr 0, offset = 0\<rparr>, \<lparr>tree = Ptr 1, offset = 2\<rparr>]\<rparr>],
       Ptr 3)"
  by (simp add: wrapped_tree_def ts_tree_make_leaf_def ts_tree_make_node_def
      make_node_options_def malloc_def ts_tree_is_visible_def ts_tree_is_wrapper_def
      TSTreeOptionsHidden_def TSTreeOptionsWrapper_def grandchild_entries_def)

lemma plain_tree_rendered:
  "rendered (fst (the plain_tree)) example_names True (snd (the plain_tree)) =
     Some ''(name1 (name2) (name3))''"
  unfolding plain_tree_eval example_names_def by code_simp

lemma wrapped_tree_rendered:
  "rendered (fst (the wrapped_tree)) example_names True (snd (the wrapped_tree)) =
     Some ''(name1 (name2) (name3))''"
  unfolding wrapped_tree_eval example_names_def by code_simp

text \<open>
  C8. Whenever the rendering of the spec is defined for a tree (visible nodes as
  \<open>(name children)\<close>, hidden nodes as their children only, the topmost node always
  as visible), \<^verbatim>\<open>ts_tree_string\<close> returns a buffer holding exactly that text and the
  terminating zero, whatever the fresh buffer held. For the tree \<open>name1\<close> over the
  visible leaves \<open>name2\<close> and \<open>name3\<close> the text is \<open>(name1 (name2) (name3))\<close>, and it is
  the same when \<open>name2\<close> is replaced by a hidden wrapper whose only child is \<open>name2\<close>.
\<close>

theorem ts_tree_string_rendering:
  "(rendered h symbol_names True node = Some res \<longrightarrow>
      ts_tree_string h symbol_names uninit node = Some (res @ [CHR 0x00])) \<and>
   plain_tree \<noteq> None \<and>
   ts_tree_string (fst (the plain_tree)) example_names uninit (snd (the plain_tree)) =
     Some (''(name1 (name2) (name3))'' @ [CHR 0x00]) \<and>
   wrapped_tree \<noteq> None \<and>
   ts_tree_string (fst (the wrapped_tree)) example_names uninit (snd (the wrapped_tree)) =
     Some (''(name1 (name2) (name3))'' @ [CHR 0x00])"
  using ts_tree_string_rendered [OF plain_tree_rendered, of uninit]
        ts_tree_string_rendered [OF wrapped_tree_rendered, of uninit]
  by (simp add: ts_tree_string_rendered plain_tree_eval wrapped_tree_eval)

theorem ts_tree_string_rendering_witness:
  "\<not> ts_tree_is_visible (node_at (fst hidden_leaf) (snd hidden_leaf)) \<and>
   rendered (fst hidden_leaf) example_names True (snd hidden_leaf) = Some ''(name2)'' \<and>
   ts_tree_string (fst hidden_leaf) example_names (\<lambda>_. CHR ''?'') (snd hidden_leaf) =
     Some (''(name2)'' @ [CHR 0x00])"
proof -
  have r: "rendered (fst hidden_leaf) example_names True (snd hidden_leaf) = Some ''(name2)''"
    unfolding hidden_leaf_def example_names_def by code_simp
  have v: "\<not> ts_tree_is_visible (node_at (fst hidden_leaf) (snd hidden_leaf))"
    by (simp add: hidden_leaf_def ts_tree_make_leaf_def malloc_def node_at_def
        ts_tree_is_visible_def TSTreeOptionsHidden_def)
  from ts_tree_string_rendering
         [of "fst hidden_leaf" example_names "snd hidden_leaf" "''(name2)''" "\<lambda>_. CHR ''?''"]
  show ?thesis using r v by simp
qed

text \<open>
  C9. For every node with the error symbol and no children, \<^verbatim>\<open>ts_tree_string\<close>
  returns \<open>(ERROR 'c')\<close> for the lookahead character \<open>c\<close>, and \<open>(ERROR <EOF>)\<close> when the
  lookahead is the zero character; the symbol table is not consulted. The nodes
  that \<^verbatim>\<open>ts_tree_make_error\<close> builds with size 1, padding 0 and lookahead \<open>x\<close> or zero
  are the witness.
\<close>

theorem ts_tree_string_error:
  assumes "deref h node = Some t" "symbol t = ts_builtin_sym_error" "children t = []"
  shows "ts_tree_string h symbol_names uninit node =
           Some (''(ERROR '' @
                 (if lookahead_char t = CHR 0x00 then ''<EOF>''
                  else [CHR 0x27, lookahead_char t, CHR 0x27]) @ '')'' @ [CHR 0x00])"
  using ts_tree_string_rendered [OF rendered_error_leaf [OF assms]]
  by (simp add: lookahead_text_def)

theorem ts_tree_string_error_witness:
  "ts_tree_string (fst (ts_tree_make_error [] 1 0 CHR ''x'')) [] (\<lambda>_. CHR ''?'')
     (snd (ts_tree_make_error [] 1 0 CHR ''x'')) = Some (''(ERROR 'x')'' @ [CHR 0x00]) \<and>
   ts_tree_string (fst (ts_tree_make_error [] 1 0 CHR 0x00)) [] (\<lambda>_. CHR ''?'')
     (snd (ts_tree_make_error [] 1 0 CHR 0x00)) = Some (''(ERROR <EOF>)'' @ [CHR 0x00])"
proof -
  have x: "deref (fst (ts_tree_make_error [] 1 0 CHR ''x'')) (snd (ts_tree_make_error [] 1 0 CHR ''x''))
             = Some \<lparr>symbol = ts_builtin_sym_error, options = 0, ref_count = 1, padding = 0,
             size' = 1, lookahead_char = CHR ''x'', children = [], visible_child_count = 0,
             visible_children = []\<rparr>"
    by (simp add: make_error_node)
  have e: "deref (fst (ts_tree_make_error [] 1 0 CHR 0x00)) (snd (ts_tree_make_error [] 1 0 CHR 0x00))
             = Some \<lparr>symbol = ts_builtin_sym_error, options = 0, ref_count = 1, padding = 0,
             size' = 1, lookahead_char = CHR 0x00, children = [], visible_child_count = 0,
             visible_children = []\<rparr>"
    by (simp add: make_error_node)
  from ts_tree_string_error [OF x, of "[]" "\<lambda>_. CHR ''?''"]
       ts_tree_string_error [OF e, of "[]" "\<lambda>_. CHR ''?''"]
  show ?thesis by simp
qed

section \<open>Offsets of the visible children\<close>

lemma chain_le: "entries_chain h lo es hi \<Longrightarrow> lo \<le> hi"
proof (induction es arbitrary: lo)
  case Nil
  then show ?case by simp
next
  case (Cons e es)
  from Cons.prems have "lo \<le> unat (offset e)"
    and "entries_chain h (unat (offset e) + unat (size' (node_at h (tree e)))) es hi"
    by simp_all
  with Cons.IH [of "unat (offset e) + unat (size' (node_at h (tree e)))"] show ?case
    by simp
qed

lemma chain_mono:
  "entries_chain h lo es hi \<Longrightarrow> lo' \<le> lo \<Longrightarrow> hi \<le> hi' \<Longrightarrow> entries_chain h lo' es hi'"
  by (induction es arbitrary: lo lo') auto

lemma chain_append:
  "entries_chain h lo xs mid \<Longrightarrow> entries_chain h mid ys hi \<Longrightarrow>
   entries_chain h lo (xs @ ys) hi"
proof (induction xs arbitrary: lo)
  case Nil
  then show ?case by (auto intro: chain_mono)
next
  case (Cons x xs)
  then show ?case by auto
qed

lemma chain_take: "entries_chain h lo es hi \<Longrightarrow> entries_chain h lo (take n es) hi"
proof (induction es arbitrary: lo n)
  case Nil
  then show ?case by simp
next
  case (Cons e es)
  show ?case
  proof (cases n)
    case 0
    from chain_le [OF Cons.prems] show ?thesis using 0 by simp
  next
    case (Suc m)
    with Cons show ?thesis by simp
  qed
qed

lemma chain_shift:
  fixes off :: size_t
  assumes "entries_chain h lo es hi" and "unat off + hi < 2 ^ 64"
  shows "entries_chain h (unat off + lo)
           (map (\<lambda>g. \<lparr> tree = tree g, offset = off + offset g \<rparr>) es) (unat off + hi)"
  using assms(1)
proof (induction es arbitrary: lo)
  case Nil
  then show ?case by simp
next
  case (Cons e es)
  from Cons.prems have tail:
    "entries_chain h (unat (offset e) + unat (size' (node_at h (tree e)))) es hi"
    and lo: "lo \<le> unat (offset e)" and v: "valid h (tree e)"
    by simp_all
  from chain_le [OF tail] have "unat (offset e) \<le> hi" by simp
  with assms(2) have "unat off + unat (offset e) < 2 ^ LENGTH(64)" by simp
  then have u: "unat (off + offset e) = unat off + unat (offset e)"
    by (simp only: unat_add_lem)
  from Cons.IH [OF tail] show ?case
    using lo v by (simp add: u add.assoc)
qed

lemma chain_bounds:
  "entries_chain h lo es hi \<Longrightarrow>
   sorted (map (\<lambda>e. unat (offset e)) es) \<and>
   (\<forall>e\<in>set es. lo \<le> unat (offset e) \<and>
      unat (offset e) + unat (size' (node_at h (tree e))) \<le> hi)"
proof (induction es arbitrary: lo)
  case Nil
  then show ?case by simp
next
  case (Cons e es)
  from Cons.prems have tail:
    "entries_chain h (unat (offset e) + unat (size' (node_at h (tree e)))) es hi"
    and lo: "lo \<le> unat (offset e)"
    by simp_all
  from Cons.IH [OF tail] chain_le [OF tail] lo show ?case
    by auto
qed

lemma chain_heap:
  assumes "entries_chain h lo es hi"
    and "\<And>p. valid h p \<Longrightarrow> valid h' p \<and> size' (node_at h' p) = size' (node_at h p)"
  shows "entries_chain h' lo es hi"
  using assms(1) by (induction es arbitrary: lo) (auto simp: assms(2))

lemma unat_plus_64:
  fixes x y :: size_t
  shows "unat x + unat y < 2 ^ 64 \<Longrightarrow> unat (x + y) = unat x + unat y"
  using unat_add_lem [of x y] by simp

lemma flatten_chain:
  "make_node_flatten h cs i (vis, off) = Some (vis', off') \<Longrightarrow>
   entries_chain h 0 vis (unat off) \<Longrightarrow>
   (\<forall>c\<in>set cs. \<not> ts_tree_is_visible (node_at h c) \<longrightarrow>
      entries_chain h 0 (visible_children (node_at h c)) (unat (size' (node_at h c)))) \<Longrightarrow>
   unat off + content_extent h cs i < 2 ^ 64 \<Longrightarrow>
   entries_chain h 0 vis' (unat off') \<and> unat off' = unat off + content_extent h cs i"
proof (induction cs arbitrary: i vis off)
  case Nil
  then show ?case by simp
next
  case (Cons child rest)
  from Cons.prems(1) obtain c where d: "deref h child = Some c"
    by (auto split: option.splits)
  then have c: "c = node_at h child" and v: "valid h child"
    by (simp_all add: node_at_def valid_deref)
  define off1 where "off1 = (if i > 0 then off + padding c else off)"
  define pad1 where "pad1 = (if i > 0 then unat (padding c) else 0)"
  have total: "unat off + (pad1 + unat (size' c) + content_extent h rest (i + 1)) < 2 ^ 64"
    using Cons.prems(4) by (cases "0 < i") (simp_all add: pad1_def c)
  have u1: "unat off1 = unat off + pad1"
    using total by (auto simp: off1_def pad1_def unat_plus_64)
  have u2: "unat (off1 + size' c) = unat off1 + unat (size' c)"
    using total u1 by (intro unat_plus_64) simp
  have rest_kids: "\<forall>c\<in>set rest. \<not> ts_tree_is_visible (node_at h c) \<longrightarrow>
      entries_chain h 0 (visible_children (node_at h c)) (unat (size' (node_at h c)))"
    using Cons.prems(3) by simp
  have rest_total: "unat (off1 + size' c) + content_extent h rest (i + 1) < 2 ^ 64"
    using total u1 u2 by simp
  have ext: "content_extent h (child # rest) i =
               pad1 + unat (size' c) + content_extent h rest (i + 1)"
    by (cases "0 < i") (simp_all add: pad1_def c)
  show ?case
  proof (cases "ts_tree_is_visible c")
    case True
    with Cons.prems(1) d have rec:
      "make_node_flatten h rest (i + 1)
         (vis @ [\<lparr> tree = child, offset = off1 \<rparr>], off1 + size' c) = Some (vis', off')"
      by (simp add: off1_def Let_def)
    have one: "entries_chain h (unat off) [\<lparr> tree = child, offset = off1 \<rparr>]
                 (unat (off1 + size' c))"
      using v u1 u2 by (simp add: c)
    have inv: "entries_chain h 0 (vis @ [\<lparr> tree = child, offset = off1 \<rparr>])
                 (unat (off1 + size' c))"
      by (rule chain_append [OF Cons.prems(2) one])
    have "entries_chain h 0 vis' (unat off') \<and>
          unat off' = unat (off1 + size' c) + content_extent h rest (i + 1)"
      by (rule Cons.IH [OF rec inv rest_kids rest_total])
    then have a: "entries_chain h 0 vis' (unat off')"
      and b: "unat off' = unat (off1 + size' c) + content_extent h rest (i + 1)"
      by blast+
    show ?thesis
    proof (intro conjI)
      show "entries_chain h 0 vis' (unat off')" by (rule a)
      show "unat off' = unat off + content_extent h (child # rest) i"
        unfolding ext using b u1 u2 by simp
    qed
  next
    case False
    with Cons.prems(1) d obtain gs where
      g: "grandchild_entries (visible_children c) (visible_child_count c) off1 = Some gs"
      and rec: "make_node_flatten h rest (i + 1) (vis @ gs, off1 + size' c) = Some (vis', off')"
      by (auto simp: off1_def Let_def split: option.splits)
    from g have gs: "gs = map (\<lambda>g. \<lparr> tree = tree g, offset = off1 + offset g \<rparr>)
                           (take (unat (visible_child_count c)) (visible_children c))"
      by (auto simp: grandchild_entries_def split: if_splits)
    from Cons.prems(3) False have
      "entries_chain h 0 (visible_children c) (unat (size' c))"
      by (simp add: c)
    then have "entries_chain h 0 (take (unat (visible_child_count c)) (visible_children c))
                 (unat (size' c))"
      by (rule chain_take)
    then have "entries_chain h (unat off1 + 0) gs (unat off1 + unat (size' c))"
      unfolding gs using total u1 by (intro chain_shift) simp_all
    then have part: "entries_chain h (unat off) gs (unat (off1 + size' c))"
      using u1 u2 by (auto intro: chain_mono)
    have inv: "entries_chain h 0 (vis @ gs) (unat (off1 + size' c))"
      by (rule chain_append [OF Cons.prems(2) part])
    have "entries_chain h 0 vis' (unat off') \<and>
          unat off' = unat (off1 + size' c) + content_extent h rest (i + 1)"
      by (rule Cons.IH [OF rec inv rest_kids rest_total])
    then have a: "entries_chain h 0 vis' (unat off')"
      and b: "unat off' = unat (off1 + size' c) + content_extent h rest (i + 1)"
      by blast+
    show ?thesis
    proof (intro conjI)
      show "entries_chain h 0 vis' (unat off')" by (rule a)
      show "unat off' = unat off + content_extent h (child # rest) i"
        unfolding ext using b u1 u2 by simp
    qed
  qed
qed

lemma unat_extent_sum:
  fixes a :: size_t
  shows "unat a + (\<Sum>c\<leftarrow>cs. unat (padding (f c)) + unat (size' (f c))) < 2 ^ 64 \<Longrightarrow>
         unat (a + (\<Sum>c\<leftarrow>cs. padding (f c) + size' (f c))) =
           unat a + (\<Sum>c\<leftarrow>cs. unat (padding (f c)) + unat (size' (f c)))"
proof (induction cs arbitrary: a)
  case Nil
  then show ?case by simp
next
  case (Cons c cs)
  have 1: "unat (padding (f c) + size' (f c)) = unat (padding (f c)) + unat (size' (f c))"
    using Cons.prems by (intro unat_plus_64) simp
  have 2: "unat (a + (padding (f c) + size' (f c))) = unat a + unat (padding (f c) + size' (f c))"
    using Cons.prems 1 by (intro unat_plus_64) simp
  have "unat ((a + (padding (f c) + size' (f c))) + (\<Sum>c\<leftarrow>cs. padding (f c) + size' (f c))) =
        unat (a + (padding (f c) + size' (f c))) +
          (\<Sum>c\<leftarrow>cs. unat (padding (f c)) + unat (size' (f c)))"
    using Cons.prems 1 2 by (intro Cons.IH) simp
  then show ?case using 1 2 by (simp add: add.assoc)
qed

lemma content_extent_pos:
  "0 < i \<Longrightarrow> content_extent h cs i =
     (\<Sum>c\<leftarrow>cs. unat (padding (node_at h c)) + unat (size' (node_at h c)))"
  by (induction cs arbitrary: i) simp_all

lemma measure_size_nat:
  assumes "make_node_measure h cs 0 (0, 0, 0) = Some (h', sz, pad, vcc)"
    and "content_extent h cs 0 < 2 ^ 64"
  shows "unat sz = content_extent h cs 0"
proof (cases cs)
  case Nil
  with assms show ?thesis by simp
next
  case (Cons c0 rest)
  from measure_first(3) [OF assms(1) [unfolded Cons]] have
    sz: "sz = size' (node_at h c0) +
               (\<Sum>c\<leftarrow>rest. padding (node_at h c) + size' (node_at h c))" .
  from assms(2) Cons have
    "unat (size' (node_at h c0)) +
       (\<Sum>c\<leftarrow>rest. unat (padding (node_at h c)) + unat (size' (node_at h c))) < 2 ^ 64"
    by (simp add: content_extent_pos)
  from unat_extent_sum [where a = "size' (node_at h c0)" and cs = rest and f = "node_at h", OF this]
  show ?thesis
    by (simp add: sz Cons content_extent_pos)
qed

lemma chain_new_heap:
  assumes "entries_chain h lo es hi"
  shows "entries_chain (retained h cs @ [t]) lo es hi"
  using assms
proof (rule chain_heap)
  fix p assume p: "valid h p"
  then have "valid (retained h cs) p" by simp
  then show "valid (retained h cs @ [t]) p \<and>
             size' (node_at (retained h cs @ [t]) p) = size' (node_at h p)"
    using p by (simp add: valid_append node_at_append retained_fields)
qed

lemma chain_retained:
  assumes "entries_chain h lo es hi"
  shows "entries_chain (retained h cs) lo es hi"
  using assms
  by (rule chain_heap) (simp add: retained_fields)

lemma heap_chains_valid:
  assumes "heap_chains h" "valid h c"
  shows "entries_chain h 0 (visible_children (node_at h c)) (unat (size' (node_at h c)))"
proof -
  from assms(2) obtain a where a: "c = Ptr a" "a < length h"
    by (cases c) (auto simp: valid_def)
  then have "h ! a \<in> set h" by simp
  with assms(1) a show ?thesis
    by (auto simp: heap_chains_def list_all_iff node_at_def)
qed

lemma content_extent_retained:
  "\<forall>c\<in>set cs. valid h c \<Longrightarrow>
   content_extent (retained h ds) cs i = content_extent h cs i"
  by (induction cs arbitrary: i) (simp_all add: retained_fields)

lemma heap_chains_Nil: "heap_chains []"
  by (simp add: heap_chains_def)

lemma heap_chains_append:
  assumes "heap_chains h" "entries_chain (h @ [t]) 0 (visible_children t) (unat (size' t))"
  shows "heap_chains (h @ [t])"
proof -
  have "entries_chain (h @ [t]) 0 (visible_children u) (unat (size' u))" if "u \<in> set h" for u
  proof -
    from assms(1) that have "entries_chain h 0 (visible_children u) (unat (size' u))"
      by (simp add: heap_chains_def list_all_iff)
    then show ?thesis
      by (rule chain_heap) (simp add: valid_append node_at_append)
  qed
  with assms(2) show ?thesis
    by (auto simp: heap_chains_def list_all_iff)
qed

lemma heap_chains_leaf:
  "heap_chains h \<Longrightarrow> heap_chains (fst (ts_tree_make_leaf h symb sz pad is_hidden))"
  by (simp add: ts_tree_make_leaf_def malloc_def heap_chains_append)

lemma heap_chains_error:
  "heap_chains h \<Longrightarrow> heap_chains (fst (ts_tree_make_error h sz pad c))"
  by (simp add: make_error_node heap_chains_append)

lemma heap_chains_retained:
  assumes "heap_chains h"
  shows "heap_chains (retained h cs)"
proof -
  have "entries_chain (retained h cs) 0 (visible_children u) (unat (size' u))"
    if "u \<in> set (retained h cs)" for u
  proof -
    from that obtain a where a: "a < length h" "u = retained h cs ! a"
      by (auto simp: in_set_conv_nth)
    then have "visible_children u = visible_children (h ! a)" "size' u = size' (h ! a)"
      by (simp_all add: nth_retained)
    moreover from assms a(1) have
      "entries_chain h 0 (visible_children (h ! a)) (unat (size' (h ! a)))"
      by (simp add: heap_chains_def list_all_iff)
    ultimately show ?thesis by (simp add: chain_retained)
  qed
  then show ?thesis by (simp add: heap_chains_def list_all_iff)
qed

lemma zero_width_eval:
  "zero_width =
     Some ([\<lparr>symbol = 1, options = 0, ref_count = 2, padding = 0, size' = 0,
         lookahead_char = CHR 0x00, children = [], visible_child_count = 0,
         visible_children = []\<rparr>,
       \<lparr>symbol = 2, options = 0, ref_count = 2, padding = 0, size' = 0,
         lookahead_char = CHR 0x00, children = [], visible_child_count = 0,
         visible_children = []\<rparr>,
       \<lparr>symbol = 3, options = 0, ref_count = 2, padding = 2, size' = 1,
         lookahead_char = CHR 0x00, children = [], visible_child_count = 0,
         visible_children = []\<rparr>,
       \<lparr>symbol = 4, options = 0, ref_count = 1, padding = 0, size' = 3,
         lookahead_char = CHR 0x00, children = [Ptr 0, Ptr 1, Ptr 2],
         visible_child_count = 3,
         visible_children = [\<lparr>tree = Ptr 0, offset = 0\<rparr>, \<lparr>tree = Ptr 1, offset = 0\<rparr>,
                             \<lparr>tree = Ptr 2, offset = 2\<rparr>]\<rparr>],
       Ptr 3)"
  by (simp add: zero_width_def ts_tree_make_leaf_def ts_tree_make_node_def
      make_node_options_def malloc_def ts_tree_is_visible_def ts_tree_is_wrapper_def
      TSTreeOptionsHidden_def TSTreeOptionsWrapper_def grandchild_entries_def)

text \<open>
  C5, as the code has it. Let \<^verbatim>\<open>ts_tree_make_node\<close> succeed on a heap in which every
  node has its visible children in order within its size (the empty heap is such a
  heap, and the constructors keep the property), and let the sizes and paddings of
  the children add up without wrapping around \<^verbatim>\<open>size_t\<close>. Then the new heap has the
  property again; in particular the entries of the new node do not overlap, their
  offsets are non-decreasing, and every entry's offset plus that entry's size is at
  most the node's size (so this holds for the last entry).

  The claim as stated fails twice on the node over two leaves of size 0 and a leaf
  of size 1 and padding 2: the offsets are 0, 0, 2, so they do not increase
  strictly, and the last offset plus the last child's total size is 2 + 3 = 5,
  more than the node's size plus padding, 3. Offsets are measured from the start of
  the node's content to the start of a child's content, so a child's padding is
  already part of its offset.
\<close>

theorem make_node_offsets:
  assumes "ts_tree_make_node h symb cs is_hidden = Some (h', p)"
    and "heap_chains h"
    and "content_extent h cs 0 < 2 ^ 64"
  shows "heap_chains h' \<and>
         entries_chain h' 0 (visible_children (node_at h' p)) (unat (size' (node_at h' p))) \<and>
         sorted (map (\<lambda>e. unat (offset e)) (visible_children (node_at h' p))) \<and>
         (\<forall>e\<in>set (visible_children (node_at h' p)).
            unat (offset e) + unat (size' (node_at h' (tree e))) \<le>
              unat (size' (node_at h' p)))"
proof -
  from assms(1) obtain sz pad vcc opts vis off where
    m: "make_node_measure h cs 0 (0, 0, 0) = Some (retained h cs, sz, pad, vcc)"
    and f: "make_node_flatten (retained h cs) cs 0 ([], 0) = Some (vis, off)"
    and p: "p = Ptr (length h)"
    and h': "h' = retained h cs @
       [\<lparr> symbol = symb, options = opts, ref_count = 1, padding = pad, size' = sz,
          lookahead_char = CHR 0x00, children = cs, visible_child_count = vcc,
          visible_children = vis \<rparr>]"
    and v: "\<forall>c\<in>set cs. valid h c"
    by (rule make_node_SomeD)
  let ?h1 = "retained h cs"
  have inv1: "heap_chains ?h1" using assms(2) by (rule heap_chains_retained)
  have kids: "\<forall>c\<in>set cs. \<not> ts_tree_is_visible (node_at ?h1 c) \<longrightarrow>
      entries_chain ?h1 0 (visible_children (node_at ?h1 c)) (unat (size' (node_at ?h1 c)))"
    using heap_chains_valid [OF inv1] v by simp
  have ext: "content_extent ?h1 cs 0 = content_extent h cs 0"
    using v by (rule content_extent_retained)
  have "entries_chain ?h1 0 vis (unat off) \<and> unat off = unat (0 :: size_t) + content_extent ?h1 cs 0"
    using assms(3) by (intro flatten_chain [OF f _ kids]) (simp_all add: ext)
  then have c1: "entries_chain ?h1 0 vis (unat off)" and off: "unat off = content_extent h cs 0"
    by (auto simp: ext)
  have sz: "unat sz = content_extent h cs 0"
    by (rule measure_size_nat [OF m assms(3)])
  have new: "node_at h' p = \<lparr> symbol = symb, options = opts, ref_count = 1, padding = pad,
          size' = sz, lookahead_char = CHR 0x00, children = cs, visible_child_count = vcc,
          visible_children = vis \<rparr>"
    using node_at_new [of "retained h cs"] by (simp add: h' p)
  have c2: "entries_chain h' 0 vis (unat sz)"
    unfolding h'
    by (rule chain_heap [OF c1 [unfolded off sz [symmetric]]])
       (simp add: valid_append node_at_append)
  have all: "heap_chains h'"
    unfolding h' by (rule heap_chains_append [OF inv1]) (use c2 in \<open>simp add: h'\<close>)
  from chain_bounds [OF c2] all c2 show ?thesis
    by (simp add: new)
qed

theorem make_node_offsets_witness:
  "heap_chains (fst (the scenario_W)) \<and>
   content_extent (fst (the scenario_W)) [Ptr 0, Ptr 2] 0 = 4 \<and>
   ts_tree_make_node (fst (the scenario_W)) 4 [Ptr 0, Ptr 2] False =
     Some (fst (the scenario_R), Ptr 3) \<and>
   heap_chains (fst (the scenario_R)) \<and>
   map (\<lambda>e. unat (offset e)) (visible_children (node_at (fst (the scenario_R)) (Ptr 3))) = [0, 2] \<and>
   map (\<lambda>e. unat (size' (node_at (fst (the scenario_R)) (tree e))))
     (visible_children (node_at (fst (the scenario_R)) (Ptr 3))) = [1, 2] \<and>
   unat (size' (node_at (fst (the scenario_R)) (Ptr 3))) = 4"
proof -
  have hc: "heap_chains (fst (the scenario_W))"
    by (simp add: scenario_W_eval heap_chains_def valid_def node_at_def)
  have ce: "content_extent (fst (the scenario_W)) [Ptr 0, Ptr 2] 0 = 4"
    by (simp add: scenario_W_eval node_at_def)
  have mk: "ts_tree_make_node (fst (the scenario_W)) 4 [Ptr 0, Ptr 2] False =
              Some (fst (the scenario_R), Ptr 3)"
    by (simp add: scenario_R_call) (simp add: scenario_R_eval)
  have "content_extent (fst (the scenario_W)) [Ptr 0, Ptr 2] 0 < 2 ^ 64"
    unfolding ce by simp
  from make_node_offsets [OF mk hc this] hc ce mk show ?thesis
    by (simp add: scenario_R_eval node_at_def)
qed

theorem make_node_offsets_counterexample:
  "zero_width \<noteq> None \<and>
   map (\<lambda>e. unat (offset e))
     (visible_children (node_at (fst (the zero_width)) (snd (the zero_width)))) = [0, 0, 2] \<and>
   \<not> sorted_wrt (<) (map (\<lambda>e. unat (offset e))
     (visible_children (node_at (fst (the zero_width)) (snd (the zero_width))))) \<and>
   unat (size' (node_at (fst (the zero_width)) (snd (the zero_width)))) +
     unat (padding (node_at (fst (the zero_width)) (snd (the zero_width)))) = 3 \<and>
   unat (offset (last (visible_children (node_at (fst (the zero_width)) (snd (the zero_width)))))) +
     unat (ts_tree_total_size (node_at (fst (the zero_width))
       (tree (last (visible_children (node_at (fst (the zero_width)) (snd (the zero_width)))))))) = 5 \<and>
   \<not> unat (offset (last (visible_children (node_at (fst (the zero_width)) (snd (the zero_width)))))) +
     unat (ts_tree_total_size (node_at (fst (the zero_width))
       (tree (last (visible_children (node_at (fst (the zero_width)) (snd (the zero_width))))))))
     \<le> unat (size' (node_at (fst (the zero_width)) (snd (the zero_width)))) +
       unat (padding (node_at (fst (the zero_width)) (snd (the zero_width))))"
  by (simp add: zero_width_eval node_at_def ts_tree_total_size_def)

section \<open>The functions return on the heaps that the constructors build\<close>

text \<open>
  The constructors keep the heap ordered and the counts consistent, starting from
  the empty heap. On such heaps \<^verbatim>\<open>ts_tree_make_node\<close> returns for valid children whose
  visible entries can be counted in a \<^verbatim>\<open>size_t\<close>, and \<^verbatim>\<open>ts_tree_string\<close> returns when
  the table names every symbol in the heap but the error symbol.
  (\<open>ts_tree_equals_terminates\<close> is the same fact for \<^verbatim>\<open>ts_tree_equals\<close>.)
\<close>

lemma heap_ordered_iff:
  "heap_ordered h \<longleftrightarrow> (\<forall>a<length h. \<forall>c\<in>set (children (h ! a)). points_below a c)"
proof
  assume o: "heap_ordered h"
  show "\<forall>a<length h. \<forall>c\<in>set (children (h ! a)). points_below a c"
  proof (intro allI impI ballI)
    fix a c assume "a < length h" "c \<in> set (children (h ! a))"
    from heap_ordered_children [OF o this] show "points_below a c" by auto
  qed
next
  assume r: "\<forall>a<length h. \<forall>c\<in>set (children (h ! a)). points_below a c"
  show "heap_ordered h"
    unfolding heap_ordered_def list_all_iff
  proof (intro ballI)
    fix x assume "x \<in> set (zip [0..<length h] h)"
    then obtain i where "i < length h" "x = (i, h ! i)"
      by (auto simp: in_set_zip)
    with r show "case x of (a, t) \<Rightarrow> \<forall>c\<in>set (children t). points_below a c"
      by simp
  qed
qed

lemma heap_ordered_Nil: "heap_ordered []"
  by (simp add: heap_ordered_def)

lemma points_below_valid: "valid h c \<Longrightarrow> points_below (length h) c"
  by (cases c) (simp_all add: valid_def)

lemma heap_ordered_append:
  assumes "heap_ordered h" "\<forall>c\<in>set (children t). valid h c"
  shows "heap_ordered (h @ [t])"
  unfolding heap_ordered_iff
proof (intro allI impI ballI)
  fix a c assume a: "a < length (h @ [t])" and c: "c \<in> set (children ((h @ [t]) ! a))"
  show "points_below a c"
  proof (cases "a < length h")
    case True
    with assms(1) c show ?thesis by (simp add: heap_ordered_iff nth_append)
  next
    case False
    with a have "a = length h" by simp
    with assms(2) c show ?thesis by (simp add: points_below_valid)
  qed
qed

lemma heap_ordered_retained:
  assumes "heap_ordered h"
  shows "heap_ordered (retained h cs)"
  using assms by (simp add: heap_ordered_iff nth_retained)

lemma heap_ordered_leaf:
  "heap_ordered h \<Longrightarrow> heap_ordered (fst (ts_tree_make_leaf h symb sz pad is_hidden))"
  by (simp add: ts_tree_make_leaf_def malloc_def heap_ordered_append)

lemma heap_ordered_error:
  "heap_ordered h \<Longrightarrow> heap_ordered (fst (ts_tree_make_error h sz pad c))"
  by (simp add: make_error_node heap_ordered_append)

lemma heap_ordered_node:
  assumes "ts_tree_make_node h symb cs is_hidden = Some (h', p)" "heap_ordered h"
  shows "heap_ordered h'"
proof -
  from assms(1) obtain sz pad vcc opts vis off where
    h': "h' = retained h cs @
       [\<lparr> symbol = symb, options = opts, ref_count = 1, padding = pad, size' = sz,
          lookahead_char = CHR 0x00, children = cs, visible_child_count = vcc,
          visible_children = vis \<rparr>]"
    and v: "\<forall>c\<in>set cs. valid h c"
    by (rule make_node_SomeD)
  show ?thesis
    unfolding h' using v
    by (intro heap_ordered_append heap_ordered_retained assms(2)) simp
qed

lemma render_children_total:
  "(\<forall>c\<in>set cs. \<exists>r. f c = Some r) \<Longrightarrow> \<exists>r. render_children f cs = Some r"
proof (induction cs)
  case Nil
  show ?case by auto
next
  case (Cons c cs)
  from Cons.prems obtain r where r: "f c = Some r" by auto
  from Cons obtain rs where rs: "render_children f cs = Some rs" by auto
  show ?case by (auto simp: r rs)
qed

lemma rendered_terminates:
  assumes "heap_ordered h"
    and "\<forall>t\<in>set h. symbol t \<noteq> ts_builtin_sym_error \<longrightarrow> unat (symbol t) < length symbol_names"
  shows "a < length h \<Longrightarrow> \<exists>res. rendered h symbol_names is_root (Ptr a) = Some res"
proof (induction a arbitrary: is_root rule: less_induct)
  case (less a)
  let ?t = "h ! a"
  have kids: "\<forall>c\<in>set (children ?t). \<exists>r. rendered h symbol_names False c = Some r"
  proof
    fix c assume "c \<in> set (children ?t)"
    from heap_ordered_children [OF assms(1) less.prems this] obtain b where
      b: "c = Ptr b" "b < a" by auto
    with less.prems have "b < length h" by simp
    from less.IH [OF b(2) this] b(1) show "\<exists>r. rendered h symbol_names False c = Some r"
      by simp
  qed
  from render_children_total [OF kids] obtain body where
    body: "render_children (\<lambda>c. rendered h symbol_names False c) (children ?t) = Some body"
    by auto
  have "?t \<in> set h" using less.prems by simp
  with assms(2) have name:
    "symbol ?t \<noteq> ts_builtin_sym_error \<Longrightarrow>
     symbol_name symbol_names (symbol ?t) = Some (symbol_names ! unat (symbol ?t))"
    by (simp add: symbol_name_def)
  show ?case
    by (subst rendered.simps) (auto simp: less.prems body name)
qed

lemma ts_tree_string_returns:
  assumes "heap_ordered h"
    and "\<forall>t\<in>set h. symbol t \<noteq> ts_builtin_sym_error \<longrightarrow> unat (symbol t) < length symbol_names"
    and "a < length h"
  shows "\<exists>res. rendered h symbol_names True (Ptr a) = Some res \<and>
           ts_tree_string h symbol_names uninit (Ptr a) = Some (res @ [CHR 0x00])"
  using rendered_terminates [OF assms, of True] ts_tree_string_rendered by blast

lemma flatten_returns:
  "\<forall>c\<in>set cs. valid h c \<and>
      (\<not> ts_tree_is_visible (node_at h c) \<longrightarrow>
         unat (visible_child_count (node_at h c)) \<le> length (visible_children (node_at h c))) \<Longrightarrow>
   \<exists>vis' off'. make_node_flatten h cs i (vis, off) = Some (vis', off') \<and>
      length vis' = length vis + visible_total h cs"
proof (induction cs arbitrary: i vis off)
  case Nil
  show ?case by (simp add: visible_total_def)
next
  case (Cons child rest)
  from Cons.prems have v: "valid h child" by simp
  then have d: "deref h child = Some (node_at h child)" by (rule deref_valid)
  let ?c = "node_at h child"
  let ?off1 = "if i > 0 then off + padding ?c else off"
  have rest: "\<forall>c\<in>set rest. valid h c \<and>
      (\<not> ts_tree_is_visible (node_at h c) \<longrightarrow>
         unat (visible_child_count (node_at h c)) \<le> length (visible_children (node_at h c)))"
    using Cons.prems by simp
  show ?case
  proof (cases "ts_tree_is_visible ?c")
    case True
    from Cons.IH [OF rest, of "i + 1" "vis @ [\<lparr> tree = child, offset = ?off1 \<rparr>]"
        "?off1 + size' ?c"]
    show ?thesis using True
      by (auto simp: d visible_total_def Let_def simp del: deref.simps)
  next
    case False
    with Cons.prems have le:
      "unat (visible_child_count ?c) \<le> length (visible_children ?c)" by simp
    let ?gs = "map (\<lambda>g. \<lparr> tree = tree g, offset = ?off1 + offset g \<rparr>)
                 (take (unat (visible_child_count ?c)) (visible_children ?c))"
    have g: "grandchild_entries (visible_children ?c) (visible_child_count ?c) ?off1 = Some ?gs"
      using le by (simp add: grandchild_entries_def)
    have len: "length ?gs = unat (visible_child_count ?c)" using le by simp
    from Cons.IH [OF rest, of "i + 1" "vis @ ?gs" "?off1 + size' ?c"]
    obtain vis' off' where
      rec: "make_node_flatten h rest (i + 1) (vis @ ?gs, ?off1 + size' ?c) = Some (vis', off')"
      and l: "length vis' = length (vis @ ?gs) + visible_total h rest"
      by blast
    have "make_node_flatten h (child # rest) i (vis, off) = Some (vis', off')"
      using False g rec by (simp add: d Let_def del: deref.simps)
    moreover have "length vis' = length vis + visible_total h (child # rest)"
      using l len False by (simp add: visible_total_def)
    ultimately show ?thesis by blast
  qed
qed

lemma unat_sum_list:
  fixes g :: "'a \<Rightarrow> size_t"
  shows "(\<Sum>x\<leftarrow>xs. unat (g x)) < 2 ^ 64 \<Longrightarrow>
         unat (\<Sum>x\<leftarrow>xs. g x) = (\<Sum>x\<leftarrow>xs. unat (g x))"
proof (induction xs)
  case Nil
  show ?case by simp
next
  case (Cons x xs)
  from Cons.prems have "(\<Sum>x\<leftarrow>xs. unat (g x)) < 2 ^ 64" by simp
  from Cons.IH [OF this] have ih: "unat (\<Sum>x\<leftarrow>xs. g x) = (\<Sum>x\<leftarrow>xs. unat (g x))" .
  have "unat (g x + (\<Sum>x\<leftarrow>xs. g x)) = unat (g x) + unat (\<Sum>x\<leftarrow>xs. g x)"
    using Cons.prems ih by (intro unat_plus_64) simp
  then show ?case by (simp add: ih)
qed

lemma visible_total_contribution:
  "visible_total h cs = (\<Sum>c\<leftarrow>cs. unat (visible_contribution (node_at h c)))"
  unfolding visible_total_def
  by (rule arg_cong [where f = sum_list]) (simp add: visible_contribution_def)

lemma visible_total_retained:
  "\<forall>c\<in>set cs. valid h c \<Longrightarrow> visible_total (retained h ds) cs = visible_total h cs"
  unfolding visible_total_def
  by (rule arg_cong [where f = sum_list], rule map_cong)
     (simp_all add: retained_fields visible_retained)

lemma heap_counts_valid:
  assumes "heap_counts h" "valid h c"
  shows "length (visible_children (node_at h c)) = unat (visible_child_count (node_at h c))"
proof -
  from assms(2) obtain a where a: "c = Ptr a" "a < length h"
    by (cases c) (auto simp: valid_def)
  then have "h ! a \<in> set h" by simp
  with assms(1) a show ?thesis
    by (auto simp: heap_counts_def list_all_iff node_at_def)
qed

lemma make_node_returns:
  assumes "\<forall>c\<in>set cs. valid h c" and "heap_counts h" and "visible_total h cs < 2 ^ 64"
  shows "\<exists>h' p. ts_tree_make_node h symb cs is_hidden = Some (h', p)"
proof -
  from measure_returns [OF assms(1), of 0 0 0 0] obtain h1 sz pad vcc where
    m: "make_node_measure h cs 0 (0, 0, 0) = Some (h1, sz, pad, vcc)"
    by (cases "make_node_measure h cs 0 (0, 0, 0)") auto
  from measure_heap [OF m] have h1: "h1 = retained h cs"
    and vcc: "vcc = (\<Sum>c\<leftarrow>cs. visible_contribution (node_at h c))"
    by simp_all
  have v1: "\<forall>c\<in>set cs. valid h1 c" using assms(1) by (simp add: h1)
  have o: "\<exists>opts. make_node_options h1 cs is_hidden = Some opts"
  proof (cases "length cs = 1")
    case True
    then obtain c where "cs = [c]" by (cases cs) auto
    with v1 show ?thesis by (simp add: make_node_options_def deref_valid)
  next
    case False
    then show ?thesis by (simp add: make_node_options_def)
  qed
  then obtain opts where opts: "make_node_options h1 cs is_hidden = Some opts" by blast
  have k: "\<forall>c\<in>set cs. valid h1 c \<and>
      (\<not> ts_tree_is_visible (node_at h1 c) \<longrightarrow>
         unat (visible_child_count (node_at h1 c)) \<le> length (visible_children (node_at h1 c)))"
    using assms(1) heap_counts_valid [OF assms(2)]
    by (simp add: h1 retained_fields)
  from flatten_returns [OF k, of 0 "[]" 0] obtain vis off where
    f: "make_node_flatten h1 cs 0 ([], 0) = Some (vis, off)"
    and len: "length vis = visible_total h1 cs"
    by auto
  have "unat vcc = visible_total h cs"
    unfolding vcc visible_total_contribution
    using assms(3) by (intro unat_sum_list) (simp add: visible_total_contribution)
  with len have "length vis = unat vcc"
    using assms(1) by (simp add: h1 visible_total_retained)
  with m opts f show ?thesis
    by (simp add: ts_tree_make_node_def malloc_def)
qed

lemma heap_counts_Nil: "heap_counts []"
  by (simp add: heap_counts_def)

lemma heap_counts_leaf:
  "heap_counts h \<Longrightarrow> heap_counts (fst (ts_tree_make_leaf h symb sz pad is_hidden))"
  by (simp add: ts_tree_make_leaf_def malloc_def heap_counts_def)

lemma heap_counts_error:
  "heap_counts h \<Longrightarrow> heap_counts (fst (ts_tree_make_error h sz pad c))"
  by (simp add: make_error_node heap_counts_def)

lemma heap_counts_retained: "heap_counts (retained h cs) = heap_counts h"
  by (auto simp: heap_counts_def list_all_length nth_retained)

lemma heap_counts_node:
  assumes "ts_tree_make_node h symb cs is_hidden = Some (h', p)" "heap_counts h"
  shows "heap_counts h'"
proof -
  from assms(1) obtain sz pad vcc opts vis off where
    len: "length vis = unat vcc"
    and h': "h' = retained h cs @
       [\<lparr> symbol = symb, options = opts, ref_count = 1, padding = pad, size' = sz,
          lookahead_char = CHR 0x00, children = cs, visible_child_count = vcc,
          visible_children = vis \<rparr>]"
    by (rule make_node_SomeD)
  have "heap_counts (retained h cs)" using assms(2) by (simp add: heap_counts_retained)
  then show ?thesis
    unfolding h' using len by (simp add: heap_counts_def)
qed

end
